theory Spec2Isabelle
  imports Main "HOL-Library.Word" "HOL-Library.Log_Nat"
begin

unbundle bit_operations_syntax

section \<open>Rollout controller: internal/server/rollout_controller.go\<close>

subsection \<open>Go values used by the controller\<close>

text \<open>
  A Go \<open>string\<close> is a sequence of bytes, as an Isabelle \<open>string\<close> is. The hash is a
  \<open>uint32\<close>. A \<open>float64\<close> is modelled by the rational number it denotes; an arithmetic
  result is rounded to the nearest double, ties to even (\<open>float64\<close> below). Infinities and
  NaN do not arise: the only operations are a conversion from \<open>int\<close>, a division by
  \<open>100.0\<close> and a multiplication by \<open>4294967295.0\<close>.
\<close>

definition pow2 :: "int \<Rightarrow> rat" where
  "pow2 e = (if 0 \<le> e then 2 ^ nat e else 1 / 2 ^ nat (- e))"

definition round_half_even :: "rat \<Rightarrow> int" where
  "round_half_even x =
     (let f = \<lfloor>x\<rfloor>; d = x - of_int f
      in if d < 1 / 2 then f
         else if 1 / 2 < d then f + 1
         else if even f then f else f + 1)"

definition binary_exponent :: "rat \<Rightarrow> int" where
  \<comment> \<open>for \<open>0 < x\<close>: the \<open>e\<close> with \<open>2 ^ e \<le> x < 2 ^ (e + 1)\<close>\<close>
  "binary_exponent x =
     (let (a, b) = quotient_of x;
          e0 = int (floorlog 2 (nat a)) - int (floorlog 2 (nat b))
      in if pow2 e0 \<le> x then e0 else e0 - 1)"

definition float64 :: "rat \<Rightarrow> rat" where
  \<comment> \<open>round to nearest double, ties to even: 53 significant bits, subnormal spacing
      \<open>2 ^ -1074\<close>; magnitudes of \<open>2 ^ 1024\<close> and more are out of the model's range\<close>
  "float64 x =
     (if x = 0 then 0
      else let e = max (binary_exponent \<bar>x\<bar>) (- 1022);
               ulp = pow2 (e - 52)
           in sgn x * of_int (round_half_even (\<bar>x\<bar> / ulp)) * ulp)"

subsection \<open>hash/fnv: New32a, Write, Sum32\<close>

definition fnv_offset32 :: "32 word" where
  "fnv_offset32 = 2166136261"

definition fnv_prime32 :: "32 word" where
  "fnv_prime32 = 16777619"

definition fnv1a_step :: "32 word \<Rightarrow> char \<Rightarrow> 32 word" where
  "fnv1a_step h c = (h XOR of_char c) * fnv_prime32"

subsection \<open>net/http: the cookies of a request\<close>

text \<open>
  Of a request the controller reads its cookies only: the request is the list of the
  (name, value) pairs of its Cookie headers, in order. \<open>Request.Cookie\<close> returns the
  first cookie of the given name, or \<open>ErrNoCookie\<close>.
\<close>

type_synonym request = "(string \<times> string) list"

datatype http_error = ErrNoCookie

definition Cookie :: "request \<Rightarrow> string \<Rightarrow> http_error + string" where
  "Cookie r name =
     (if name = [] then Inl ErrNoCookie
      else case List.find (\<lambda>c. fst c = name) r of
             None \<Rightarrow> Inl ErrNoCookie
           | Some c \<Rightarrow> Inr (snd c))"

subsection \<open>The controller\<close>

definition RolloutCookieName :: string where
  "RolloutCookieName = ''kamal-rollout''"

record RolloutController =
  Percentage :: int
  PercentageSplitPoint :: rat
  Allowlist :: "string list"

definition NewRolloutController :: "int \<Rightarrow> string list \<Rightarrow> RolloutController" where
  "NewRolloutController percentage allowlist =
     (let maxHashValue = (of_int (uint (0xFFFFFFFF :: 32 word)) :: rat);
          percentageSplitPoint =
            float64 (maxHashValue * float64 (float64 (of_int percentage) / 100))
      in \<lparr>Percentage = percentage,
          PercentageSplitPoint = percentageSplitPoint,
          Allowlist = allowlist\<rparr>)"

definition valueInAllowlist :: "RolloutController \<Rightarrow> string \<Rightarrow> bool" where
  "valueInAllowlist rc v = List.member (Allowlist rc) v"

definition hashForValue :: "string \<Rightarrow> 32 word" where
  "hashForValue v = foldl fnv1a_step fnv_offset32 v"

definition valueInRolloutPercentage :: "RolloutController \<Rightarrow> string \<Rightarrow> bool" where
  \<comment> \<open>\<open>float64(hash)\<close> is exact: every \<open>uint32\<close> is below \<open>2 ^ 53\<close>\<close>
  "valueInRolloutPercentage rc v =
     (let hash = hashForValue v
      in (of_int (uint hash) :: rat) \<le> PercentageSplitPoint rc)"

definition splitValue :: "request \<Rightarrow> string" where
  "splitValue r =
     (case Cookie r RolloutCookieName of
        Inl err \<Rightarrow> []
      | Inr v \<Rightarrow> v)"

definition RequestUsesRolloutGroup :: "RolloutController \<Rightarrow> request \<Rightarrow> bool" where
  "RequestUsesRolloutGroup rc r =
     (let v = splitValue r
      in if v = [] then False
         else if valueInAllowlist rc v then True
         else valueInRolloutPercentage rc v)"


section \<open>Buffer: internal/server/buffer.go\<close>

subsection \<open>Errors, files and the environment\<close>

text \<open>
  The two errors of the package, the errors of the standard library that reach a caller
  of the buffer, and the run-time panic of an out-of-range slice expression.
  \<open>ErrIO\<close> stands for any error of the operating system other than \<open>ErrClosed\<close>.
\<close>

datatype error =
    ErrMaximumSizeExceeded
  | ErrWriteAfterRead
  | EOF
  | ErrClosed
  | ErrInvalid
  | ErrIO
  | PanicSliceBounds

type_synonym byte = "8 word"

text \<open>
  An \<open>*os.File\<close> made by \<open>os.CreateTemp\<close>: its bytes, the offset of the next read or
  write, and whether it has been closed.
\<close>

record os_file =
  contents :: "byte list"
  offset :: nat
  closed :: bool

text \<open>
  What the operating system does during one call of \<open>Write\<close>: whether
  \<open>os.CreateTemp\<close> fails, and whether the write to the file fails, and after how many
  bytes (\<open>None\<close>: the whole slice is written).
\<close>

record io_env =
  createTemp_fails :: bool
  diskWrite_fails :: "nat option"

definition io_ok :: io_env where
  "io_ok = \<lparr>createTemp_fails = False, diskWrite_fails = None\<rparr>"

definition file_Write :: "nat option \<Rightarrow> os_file \<Rightarrow> byte list \<Rightarrow> (nat \<times> error option) \<times> os_file" where
  "file_Write fault f p =
     (if closed f then ((0, Some ErrClosed), f)
      else let q = (case fault of None \<Rightarrow> p | Some k \<Rightarrow> take k p);
               err = (case fault of None \<Rightarrow> None | Some k \<Rightarrow> Some ErrIO)
           in ((length q, err),
               f\<lparr>contents := take (offset f) (contents f) @ q
                               @ drop (offset f + length q) (contents f),
                 offset := offset f + length q\<rparr>))"

definition file_Read :: "os_file \<Rightarrow> nat \<Rightarrow> (byte list \<times> error option) \<times> os_file" where
  "file_Read f n =
     (if closed f then (([], Some ErrClosed), f)
      else if n = 0 then (([], None), f)
      else let rest = drop (offset f) (contents f)
           in if rest = [] then (([], Some EOF), f)
              else ((take n rest, None), f\<lparr>offset := offset f + min n (length rest)\<rparr>))"

definition file_Seek0 :: "os_file \<Rightarrow> os_file" where
  \<comment> \<open>\<open>Seek(0, 0)\<close>; on a closed file it fails and changes nothing\<close>
  "file_Seek0 f = (if closed f then f else f\<lparr>offset := 0\<rparr>)"

text \<open>
  A \<open>bytes.Buffer\<close> is the list of its unread bytes: \<open>Write\<close> appends,
  \<open>Read\<close> takes from the front.
\<close>

definition bytes_Read :: "byte list \<Rightarrow> nat \<Rightarrow> (byte list \<times> error option) \<times> byte list" where
  "bytes_Read m n =
     (if m = [] then (if n = 0 then (([], None), m) else (([], Some EOF), m))
      else ((take n m, None), drop n m))"

subsection \<open>The buffer\<close>

text \<open>
  The \<open>reader\<close> field is \<open>nil\<close>, the memory buffer itself, or an \<open>io.MultiReader\<close>
  over the readers it has not finished yet. The readers are the buffer's own memory
  buffer and file, named here by where they read from.
\<close>

datatype source = FromMemory | FromDisk

datatype io_reader = MemoryReader | MultiReader "source list"

text \<open>
  The fields of the Go struct, with \<open>closeOnce\<close> as the flag of the \<open>sync.Once\<close>.
  The last two fields are not in the struct: they count the temporary files that
  \<open>os.CreateTemp\<close> has made for this buffer and that \<open>os.Remove\<close> was called on.
  The counters are \<open>int64\<close> in Go; a total of \<open>2 ^ 63\<close> bytes is not reachable, so
  they are unbounded integers here.
\<close>

record Buffer =
  maxBytes :: int
  maxMemBytes :: int
  memoryBuffer :: "byte list"
  memBytesWritten :: int
  diskBuffer :: "os_file option"
  diskBytesWritten :: int
  overflowed :: bool
  reader :: "io_reader option"
  closeOnce :: bool
  spillsCreated :: nat
  spillsRemoved :: nat

definition NewBufferedWriteCloser :: "int \<Rightarrow> int \<Rightarrow> Buffer" where
  "NewBufferedWriteCloser mb mm =
     \<lparr>maxBytes = mb, maxMemBytes = mm, memoryBuffer = [], memBytesWritten = 0,
      diskBuffer = None, diskBytesWritten = 0, overflowed = False, reader = None,
      closeOnce = False, spillsCreated = 0, spillsRemoved = 0\<rparr>"

definition writeToMemory :: "byte list \<Rightarrow> Buffer \<Rightarrow> (nat \<times> error option) \<times> Buffer" where
  "writeToMemory p b =
     ((length p, None),
      b\<lparr>memoryBuffer := memoryBuffer b @ p,
        memBytesWritten := memBytesWritten b + int (length p)\<rparr>)"

definition writeToDisk :: "io_env \<Rightarrow> byte list \<Rightarrow> Buffer \<Rightarrow> (nat \<times> error option) \<times> Buffer" where
  "writeToDisk env p b =
     (case diskBuffer b of
        None \<Rightarrow> ((0, Some ErrInvalid), b)
      | Some f \<Rightarrow>
          (case file_Write (diskWrite_fails env) f p of
             ((n, err), f') \<Rightarrow>
               ((n, err),
                b\<lparr>diskBuffer := Some f',
                  diskBytesWritten := diskBytesWritten b + int n\<rparr>)))"

definition createSpill :: "io_env \<Rightarrow> Buffer \<Rightarrow> error option \<times> Buffer" where
  "createSpill env b =
     (if createTemp_fails env then (Some ErrIO, b)
      else (None,
            b\<lparr>diskBuffer := Some \<lparr>contents = [], offset = 0, closed = False\<rparr>,
              spillsCreated := Suc (spillsCreated b)\<rparr>))"

text \<open>
  \<open>Write\<close> returns the number of bytes written and the error. The slice expression
  \<open>p[:maxMemBytes - memBytesWritten]\<close> panics when its bound is negative; its bound
  is below \<open>len(p)\<close> where it is evaluated, since the write does not fit in memory.
  A panic returns nothing: the model gives 0 bytes and \<open>PanicSliceBounds\<close>, and keeps
  the file that \<open>createSpill\<close> has made before.
\<close>

definition Write :: "io_env \<Rightarrow> byte list \<Rightarrow> Buffer \<Rightarrow> (nat \<times> error option) \<times> Buffer" where
  "Write env p b =
     (if reader b \<noteq> None then ((0, Some ErrWriteAfterRead), b)
      else
        let len = int (length p);
            totalWritten = memBytesWritten b + diskBytesWritten b
        in if 0 < maxBytes b \<and> maxBytes b < totalWritten + len
           then ((0, Some ErrMaximumSizeExceeded), b\<lparr>overflowed := True\<rparr>)
           else if diskBuffer b \<noteq> None then writeToDisk env p b
           else if memBytesWritten b + len \<le> maxMemBytes b then writeToMemory p b
           else
             (case createSpill env b of
                (Some err, b1) \<Rightarrow> ((0, Some err), b1)
              | (None, b1) \<Rightarrow>
                  let k = maxMemBytes b1 - memBytesWritten b1
                  in if k < 0 then ((0, Some PanicSliceBounds), b1)
                     else
                       (case writeToMemory (take (nat k) p) b1 of
                          ((memWritten, Some err), b2) \<Rightarrow> ((memWritten, Some err), b2)
                        | ((memWritten, None), b2) \<Rightarrow>
                            (case writeToDisk env (drop memWritten p) b2 of
                               ((diskWritten, err), b3) \<Rightarrow>
                                 ((memWritten + diskWritten, err), b3)))))"

definition setReader :: "Buffer \<Rightarrow> Buffer" where
  "setReader b =
     (if reader b = None then
        (if diskBuffer b \<noteq> None
         then b\<lparr>diskBuffer := map_option file_Seek0 (diskBuffer b),
                reader := Some (MultiReader [FromMemory, FromDisk])\<rparr>
         else b\<lparr>reader := Some MemoryReader\<rparr>)
      else b)"

definition source_Read :: "source \<Rightarrow> nat \<Rightarrow> Buffer \<Rightarrow> (byte list \<times> error option) \<times> Buffer" where
  "source_Read s n b =
     (case s of
        FromMemory \<Rightarrow>
          (case bytes_Read (memoryBuffer b) n of
             (res, m') \<Rightarrow> (res, b\<lparr>memoryBuffer := m'\<rparr>))
      | FromDisk \<Rightarrow>
          (case diskBuffer b of
             None \<Rightarrow> (([], Some ErrInvalid), b)
           | Some f \<Rightarrow>
               (case file_Read f n of
                  (res, f') \<Rightarrow> (res, b\<lparr>diskBuffer := Some f'\<rparr>))))"

fun multi_Read :: "source list \<Rightarrow> nat \<Rightarrow> Buffer
    \<Rightarrow> (byte list \<times> error option) \<times> source list \<times> Buffer" where
  "multi_Read [] n b = (([], Some EOF), [], b)"
| "multi_Read (s # ss) n b =
     (case source_Read s n b of
        ((d, err), b1) \<Rightarrow>
          (let readers = (if err = Some EOF then ss else s # ss)
           in if d \<noteq> [] \<or> err \<noteq> Some EOF
              then ((d, if err = Some EOF \<and> readers \<noteq> [] then None else err), readers, b1)
              else multi_Read ss n b1))"

definition Read :: "nat \<Rightarrow> Buffer \<Rightarrow> (byte list \<times> error option) \<times> Buffer" where
  \<comment> \<open>\<open>Read(p)\<close> with \<open>len(p) = n\<close>: the bytes copied into \<open>p\<close> and the error\<close>
  "Read n b =
     (let b1 = setReader b
      in case reader b1 of
           None \<Rightarrow> (([], Some ErrInvalid), b1)
         | Some MemoryReader \<Rightarrow> source_Read FromMemory n b1
         | Some (MultiReader rs) \<Rightarrow>
             (case multi_Read rs n b1 of
                (res, rs', b2) \<Rightarrow> (res, b2\<lparr>reader := Some (MultiReader rs')\<rparr>)))"

definition Overflowed :: "Buffer \<Rightarrow> bool" where
  "Overflowed b = overflowed b"

text \<open>
  \<open>Send\<close> copies with \<open>io.Copy\<close>, which uses the \<open>WriteTo\<close> of the reader: each
  source is written out whole, in order, and the copy stops at the first error. The
  writer \<open>w\<close> is taken to accept every byte; the result is what it has received.
\<close>

definition source_WriteTo :: "source \<Rightarrow> Buffer \<Rightarrow> (byte list \<times> error option) \<times> Buffer" where
  "source_WriteTo s b =
     (case s of
        FromMemory \<Rightarrow> ((memoryBuffer b, None), b\<lparr>memoryBuffer := []\<rparr>)
      | FromDisk \<Rightarrow>
          (case diskBuffer b of
             None \<Rightarrow> (([], Some ErrInvalid), b)
           | Some f \<Rightarrow>
               if closed f then (([], Some ErrClosed), b)
               else ((drop (offset f) (contents f), None),
                     b\<lparr>diskBuffer := Some (f\<lparr>offset := max (offset f) (length (contents f))\<rparr>)\<rparr>)))"

fun multi_WriteTo :: "source list \<Rightarrow> Buffer
    \<Rightarrow> (byte list \<times> error option) \<times> source list \<times> Buffer" where
  "multi_WriteTo [] b = (([], None), [], b)"
| "multi_WriteTo (s # ss) b =
     (case source_WriteTo s b of
        ((d, Some err), b1) \<Rightarrow> ((d, Some err), s # ss, b1)
      | ((d, None), b1) \<Rightarrow>
          (case multi_WriteTo ss b1 of
             ((ds, err), rs, b2) \<Rightarrow> ((d @ ds, err), rs, b2)))"

definition Send :: "Buffer \<Rightarrow> (byte list \<times> error option) \<times> Buffer" where
  "Send b =
     (let b1 = setReader b
      in case reader b1 of
           None \<Rightarrow> (([], Some ErrInvalid), b1)
         | Some MemoryReader \<Rightarrow> source_WriteTo FromMemory b1
         | Some (MultiReader rs) \<Rightarrow>
             (case multi_WriteTo rs b1 of
                (res, rs', b2) \<Rightarrow> (res, b2\<lparr>reader := Some (MultiReader rs')\<rparr>)))"

definition discardSpill :: "Buffer \<Rightarrow> Buffer" where
  "discardSpill b =
     (case diskBuffer b of
        None \<Rightarrow> b
      | Some f \<Rightarrow> b\<lparr>diskBuffer := Some (f\<lparr>closed := True\<rparr>),
                     spillsRemoved := Suc (spillsRemoved b)\<rparr>)"

definition Close :: "Buffer \<Rightarrow> Buffer" where
  "Close b = (if closeOnce b then b else discardSpill (b\<lparr>closeOnce := True\<rparr>))"

subsection \<open>Sequences of calls\<close>

datatype call = CallWrite io_env "byte list" | CallRead nat | CallSend | CallClose

fun step :: "Buffer \<Rightarrow> call \<Rightarrow> Buffer" where
  "step b (CallWrite env p) = snd (Write env p b)"
| "step b (CallRead n) = snd (Read n b)"
| "step b CallSend = snd (Send b)"
| "step b CallClose = Close b"

definition run :: "call list \<Rightarrow> Buffer \<Rightarrow> Buffer" where
  "run cs b = foldl step b cs"

fun is_read :: "call \<Rightarrow> bool" where
  "is_read (CallRead n) = True"
| "is_read CallSend = True"
| "is_read c = False"

text \<open>
  A sequence of \<open>Write\<close> calls, each with what the operating system does during it:
  the state after the last call, and the result of every call.
\<close>

definition writes :: "(io_env \<times> byte list) list \<Rightarrow> Buffer \<Rightarrow> Buffer" where
  "writes ws b = foldl (\<lambda>b w. snd (Write (fst w) (snd w) b)) b ws"

fun write_results :: "(io_env \<times> byte list) list \<Rightarrow> Buffer \<Rightarrow> (nat \<times> error option) list" where
  "write_results [] b = []"
| "write_results (w # ws) b =
     fst (Write (fst w) (snd w) b) # write_results ws (snd (Write (fst w) (snd w) b))"

definition written :: "(io_env \<times> byte list) list \<Rightarrow> byte list" where
  "written ws = concat (map snd ws)"

text \<open>
  A full read through \<open>Read\<close>: the caller's loop, which reads \<open>k\<close> bytes at a time and
  collects them until \<open>Read\<close> returns an error (\<open>EOF\<close> at the end of the data). The
  loop may run forever (for \<open>k = 0\<close> it does), so it has fuel: \<open>None\<close> is a loop
  that has not returned after \<open>fuel\<close> calls of \<open>Read\<close>.
\<close>

primrec read_loop :: "nat \<Rightarrow> nat \<Rightarrow> Buffer \<Rightarrow> ((byte list \<times> error option) \<times> Buffer) option" where
  "read_loop 0 k b = None"
| "read_loop (Suc fuel) k b =
     (case Read k b of
        ((d, Some err), b') \<Rightarrow> Some ((d, Some err), b')
      | ((d, None), b') \<Rightarrow>
          (case read_loop fuel k b' of
             None \<Rightarrow> None
           | Some ((ds, err), b'') \<Rightarrow> Some ((d @ ds, err), b'')))"

subsection \<open>Notions of the specification\<close>

text \<open>The bytes a source, and the installed reader, have yet to deliver.\<close>

definition source_pending :: "Buffer \<Rightarrow> source \<Rightarrow> byte list" where
  "source_pending b s =
     (case s of
        FromMemory \<Rightarrow> memoryBuffer b
      | FromDisk \<Rightarrow>
          (case diskBuffer b of None \<Rightarrow> [] | Some f \<Rightarrow> drop (offset f) (contents f)))"

definition disk_open :: "Buffer \<Rightarrow> bool" where
  "disk_open b = (case diskBuffer b of None \<Rightarrow> False | Some f \<Rightarrow> \<not> closed f)"

definition pending :: "Buffer \<Rightarrow> byte list" where
  "pending b =
     (case reader b of
        None \<Rightarrow> []
      | Some MemoryReader \<Rightarrow> memoryBuffer b
      | Some (MultiReader rs) \<Rightarrow> concat (map (source_pending b) rs))"

text \<open>
  A buffer in its read phase whose reader can still deliver: the sources of a
  \<open>MultiReader\<close> are distinct, and the file, if it is among them, is open.
\<close>

definition readable :: "Buffer \<Rightarrow> bool" where
  "readable b =
     (case reader b of
        None \<Rightarrow> False
      | Some MemoryReader \<Rightarrow> True
      | Some (MultiReader rs) \<Rightarrow> distinct rs \<and> (FromDisk \<in> set rs \<longrightarrow> disk_open b))"

text \<open>
  The buffer that holds \<open>data\<close> after a write phase without failures: the first
  \<open>maxMemBytes\<close> bytes in memory, the rest in one temporary file.
\<close>

definition holding :: "int \<Rightarrow> int \<Rightarrow> byte list \<Rightarrow> Buffer" where
  "holding mb mm data =
     \<lparr>maxBytes = mb, maxMemBytes = mm,
      memoryBuffer = take (nat mm) data,
      memBytesWritten = int (length (take (nat mm) data)),
      diskBuffer =
        (if mm < int (length data)
         then Some \<lparr>contents = drop (nat mm) data,
                    offset = length (drop (nat mm) data), closed = False\<rparr>
         else None),
      diskBytesWritten = int (length (drop (nat mm) data)),
      overflowed = False, reader = None, closeOnce = False,
      spillsCreated = (if mm < int (length data) then 1 else 0),
      spillsRemoved = 0\<rparr>"

text \<open>
  The invariant of the write phase: no reader is installed, the counters are the
  lengths of what is stored, the memory buffer is within its threshold, the total is
  within the ceiling when there is one, and the file, once made, is open with its offset
  at its end.
\<close>

definition write_inv :: "Buffer \<Rightarrow> bool" where
  "write_inv b =
     (reader b = None \<and> 0 \<le> maxMemBytes b \<and>
      memBytesWritten b = int (length (memoryBuffer b)) \<and>
      memBytesWritten b \<le> maxMemBytes b \<and>
      (0 < maxBytes b \<longrightarrow> memBytesWritten b + diskBytesWritten b \<le> maxBytes b) \<and>
      (case diskBuffer b of
         None \<Rightarrow> diskBytesWritten b = 0
       | Some f \<Rightarrow> diskBytesWritten b = int (length (contents f)) \<and>
                  offset f = length (contents f) \<and> \<not> closed f))"

text \<open>The bytes the buffer stores on disk, and the total of a sequence of writes.\<close>

definition disk_bytes :: "Buffer \<Rightarrow> byte list" where
  "disk_bytes b = (case diskBuffer b of None \<Rightarrow> [] | Some f \<Rightarrow> contents f)"

definition total_size :: "(io_env \<times> byte list) list \<Rightarrow> int" where
  "total_size ws = int (length (written ws))"

section \<open>Properties of the rollout controller\<close>

lemma float64_zero: "float64 0 = 0"
  by (simp add: float64_def)

lemma split_point_zero: "PercentageSplitPoint (NewRolloutController 0 al) = 0"
  by (simp add: NewRolloutController_def float64_zero)

lemma allowlist_new: "Allowlist (NewRolloutController p al) = al"
  by (simp add: NewRolloutController_def Let_def)

lemma uint_le_zero_rat: "((of_int (uint (h :: 32 word)) :: rat) \<le> 0) = (h = 0)"
proof -
  have "((of_int (uint h) :: rat) \<le> 0) = (uint h \<le> 0)"
    by (simp only: of_int_le_0_iff)
  also have "\<dots> = (uint h = 0)"
    using uint_ge_0 [of h] by linarith
  also have "\<dots> = (h = 0)"
    by (simp add: uint_0_iff)
  finally show ?thesis .
qed

lemma in_percentage_zero:
  "PercentageSplitPoint rc = 0 \<Longrightarrow> valueInRolloutPercentage rc v = (hashForValue v = 0)"
  unfolding valueInRolloutPercentage_def Let_def
  by (simp only: uint_le_zero_rat)

lemma hash_ppkttia: "hashForValue ''ppkttia'' = 0"
  by (simp add: hashForValue_def fnv1a_step_def fnv_offset32_def fnv_prime32_def)

lemma hash_user1: "hashForValue ''user-1'' \<noteq> 0"
  by (simp add: hashForValue_def fnv1a_step_def fnv_offset32_def fnv_prime32_def)

lemma splitValue_single: "splitValue [(''kamal-rollout'', v)] = v"
  by (simp add: splitValue_def Cookie_def RolloutCookieName_def)

subsection \<open>Percentage 0\<close>

text \<open>
  At percentage 0 the split point is \<open>0.0\<close> and the comparison is \<open>\<le>\<close>: an identifier
  whose FNV-1a hash is 0 joins the rollout group though it is not in the allow-list.
  \<open>ppkttia\<close> is such an identifier.
\<close>

theorem C4_zero_hash_joins:
  "\<not> List.member [] ''ppkttia'' \<and>
   RequestUsesRolloutGroup (NewRolloutController 0 []) [(''kamal-rollout'', ''ppkttia'')]"
  by (simp add: RequestUsesRolloutGroup_def splitValue_single valueInAllowlist_def
      allowlist_new in_percentage_zero split_point_zero hash_ppkttia)

text \<open>
  C4, amended: for a controller constructed with percentage 0 and a request whose
  identifier is not in the allow-list, the decision is true exactly when the identifier
  is not empty and its FNV-1a hash is 0; for every other identifier it is false.
\<close>

theorem C4_percentage_zero:
  assumes "\<not> List.member al (splitValue r)"
  shows "RequestUsesRolloutGroup (NewRolloutController 0 al) r
         = (splitValue r \<noteq> [] \<and> hashForValue (splitValue r) = 0)"
  using assms
  by (simp add: RequestUsesRolloutGroup_def valueInAllowlist_def allowlist_new
      in_percentage_zero split_point_zero Let_def)

theorem C4_percentage_zero_witness:
  "\<not> List.member [''vip-client''] (splitValue [(''kamal-rollout'', ''user-1'')]) \<and>
   \<not> RequestUsesRolloutGroup (NewRolloutController 0 [''vip-client''])
       [(''kamal-rollout'', ''user-1'')]"
proof -
  have h: "\<not> List.member [''vip-client''] (splitValue [(''kamal-rollout'', ''user-1'')])"
    by (simp add: splitValue_single)
  show ?thesis
    using h C4_percentage_zero [OF h] hash_user1 by (simp add: splitValue_single)
qed

subsection \<open>The allow-list\<close>

text \<open>
  The empty identifier is refused before the allow-list is looked at: a request whose
  rollout cookie has the empty value is not in the rollout group, also when the empty
  string is in the allow-list.
\<close>

theorem C8_empty_identifier_in_allowlist:
  "List.member [[]] (splitValue [(''kamal-rollout'', [])]) \<and>
   \<not> RequestUsesRolloutGroup (NewRolloutController 100 [[]]) [(''kamal-rollout'', [])]"
  by (simp add: RequestUsesRolloutGroup_def splitValue_single)

text \<open>
  C8, amended: for every controller, whatever its percentage and its split point, and
  every identifier of its allow-list that is not the empty string, the decision is true
  for a request that carries the identifier. The hash comparison has no part in it.
\<close>

theorem C8_allowlist:
  assumes "List.member (Allowlist rc) (splitValue r)" and "splitValue r \<noteq> []"
  shows "RequestUsesRolloutGroup rc r"
  using assms by (simp add: RequestUsesRolloutGroup_def valueInAllowlist_def Let_def)

theorem C8_allowlist_witness:
  "List.member (Allowlist (NewRolloutController 0 [''vip-client'']))
      (splitValue [(''kamal-rollout'', ''vip-client'')]) \<and>
   splitValue [(''kamal-rollout'', ''vip-client'')] \<noteq> [] \<and>
   RequestUsesRolloutGroup (NewRolloutController 0 [''vip-client''])
       [(''kamal-rollout'', ''vip-client'')]"
proof -
  have h1: "List.member (Allowlist (NewRolloutController 0 [''vip-client'']))
      (splitValue [(''kamal-rollout'', ''vip-client'')])"
    by (simp add: splitValue_single allowlist_new)
  have h2: "splitValue [(''kamal-rollout'', ''vip-client'')] \<noteq> []"
    by (simp add: splitValue_single)
  show ?thesis using h1 h2 C8_allowlist [OF h1 h2] by simp
qed

subsection \<open>The decision is a function of percentage, allow-list and identifier\<close>



subsection \<open>The empty identifier\<close>

text \<open>
  C10: when the request has no rollout cookie, or the cookie has the empty value, the
  decision is false for every controller: whatever its percentage, its split point and
  its allow-list.
\<close>

theorem C10_empty_identifier:
  assumes "Cookie r RolloutCookieName = Inl ErrNoCookie \<or> Cookie r RolloutCookieName = Inr []"
  shows "\<not> RequestUsesRolloutGroup rc r"
  using assms by (auto simp add: RequestUsesRolloutGroup_def splitValue_def)

theorem C10_empty_identifier_witness:
  "(Cookie [(''kamal-rollout'', [])] RolloutCookieName = Inl ErrNoCookie \<or>
    Cookie [(''kamal-rollout'', [])] RolloutCookieName = Inr []) \<and>
   \<not> RequestUsesRolloutGroup (NewRolloutController 100 [[]]) [(''kamal-rollout'', [])] \<and>
   Cookie [] RolloutCookieName = Inl ErrNoCookie \<and>
   \<not> RequestUsesRolloutGroup (NewRolloutController 100 [[]]) []"
proof -
  have h1: "Cookie [(''kamal-rollout'', [])] RolloutCookieName = Inl ErrNoCookie \<or>
    Cookie [(''kamal-rollout'', [])] RolloutCookieName = Inr []"
    by (simp add: Cookie_def RolloutCookieName_def)
  have h2: "Cookie [] RolloutCookieName = Inl ErrNoCookie \<or> Cookie [] RolloutCookieName = Inr []"
    by (simp add: Cookie_def RolloutCookieName_def)
  have h3: "Cookie [] RolloutCookieName = Inl ErrNoCookie"
    by (simp add: Cookie_def RolloutCookieName_def)
  show ?thesis
    using h1 h3 C10_empty_identifier [OF h1, of "NewRolloutController 100 [[]]"]
      C10_empty_identifier [OF h2, of "NewRolloutController 100 [[]]"] by blast
qed

section \<open>Properties of the buffer\<close>

subsection \<open>One call of Write\<close>

lemma file_Write_error:
  "file_Write fault f p = ((n, err), f') \<Longrightarrow> err \<in> {None, Some ErrClosed, Some ErrIO}"
  by (auto simp add: file_Write_def Let_def split: if_splits option.splits)

lemma writeToDisk_error:
  "writeToDisk env p b = ((n, err), b') \<Longrightarrow>
     err \<in> {None, Some ErrClosed, Some ErrIO, Some ErrInvalid}"
  by (auto simp add: writeToDisk_def split: option.splits prod.splits dest: file_Write_error)

lemma writeToDisk_reader:
  "reader (snd (writeToDisk env p b)) = reader b"
  by (simp add: writeToDisk_def split: option.splits prod.splits)

lemma Write_reader: "reader (snd (Write env p b)) = reader b"
  by (simp add: Write_def Let_def writeToDisk_reader writeToMemory_def createSpill_def
      writeToDisk_def split: option.splits prod.splits)

lemma Write_rejected:
  assumes "reader b = None" and "0 < maxBytes b"
    and "maxBytes b < memBytesWritten b + diskBytesWritten b + int (length p)"
  shows "Write env p b = ((0, Some ErrMaximumSizeExceeded), b\<lparr>overflowed := True\<rparr>)"
  using assms by (simp add: Write_def Let_def)

lemma Write_after_read: "reader b \<noteq> None \<Longrightarrow> Write env p b = ((0, Some ErrWriteAfterRead), b)"
  by (simp add: Write_def)

lemma Write_accepting_error:
  assumes "reader b = None"
    and "\<not> (0 < maxBytes b \<and> maxBytes b < memBytesWritten b + diskBytesWritten b + int (length p))"
  shows "snd (fst (Write env p b)) \<in> {None, Some ErrClosed, Some ErrIO, Some ErrInvalid, Some PanicSliceBounds}"
proof -
  obtain n err b' where d: "writeToDisk env p b = ((n, err), b')"
    by (metis prod.exhaust)
  let ?b1 = "snd (createSpill env b)"
  let ?k = "nat (maxMemBytes ?b1 - memBytesWritten ?b1)"
  obtain n2 err2 b2 where d2:
    "writeToDisk env (drop (length (take ?k p)) p) (snd (writeToMemory (take ?k p) ?b1)) = ((n2, err2), b2)"
    by (metis prod.exhaust)
  show ?thesis
    using assms writeToDisk_error [OF d] writeToDisk_error [OF d2] d d2
    by (auto simp add: Write_def Let_def writeToMemory_def createSpill_def split: if_splits)
qed

lemma Write_after_read_iff:
  "(snd (fst (Write env p b)) = Some ErrWriteAfterRead) = (reader b \<noteq> None)"
proof (cases "reader b = None")
  case False
  then show ?thesis by (simp add: Write_after_read)
next
  case True
  show ?thesis
  proof (cases "0 < maxBytes b \<and> maxBytes b < memBytesWritten b + diskBytesWritten b + int (length p)")
    case True
    with \<open>reader b = None\<close> show ?thesis by (simp add: Write_rejected)
  next
    case False
    from Write_accepting_error [OF \<open>reader b = None\<close> False, of env]
    show ?thesis using \<open>reader b = None\<close> by auto
  qed
qed

lemma Write_exceeded_iff:
  "(snd (fst (Write env p b)) = Some ErrMaximumSizeExceeded)
   = (reader b = None \<and> 0 < maxBytes b
      \<and> maxBytes b < memBytesWritten b + diskBytesWritten b + int (length p))"
proof (cases "reader b = None")
  case False
  then show ?thesis by (simp add: Write_after_read)
next
  case True
  show ?thesis
  proof (cases "0 < maxBytes b \<and> maxBytes b < memBytesWritten b + diskBytesWritten b + int (length p)")
    case True
    with \<open>reader b = None\<close> show ?thesis by (simp add: Write_rejected)
  next
    case False
    from Write_accepting_error [OF \<open>reader b = None\<close> False, of env]
    show ?thesis using \<open>reader b = None\<close> False by auto
  qed
qed


subsection \<open>What the calls leave unchanged\<close>

lemma source_Read_fields:
  "overflowed (snd (source_Read s n b)) = overflowed b"
  "maxBytes (snd (source_Read s n b)) = maxBytes b"
  "memBytesWritten (snd (source_Read s n b)) = memBytesWritten b"
  "diskBytesWritten (snd (source_Read s n b)) = diskBytesWritten b"
  "reader (snd (source_Read s n b)) = reader b"
  by (simp_all add: source_Read_def split: source.splits option.splits prod.splits)

lemma multi_Read_fields:
  "overflowed (snd (snd (multi_Read rs n b))) = overflowed b \<and>
   maxBytes (snd (snd (multi_Read rs n b))) = maxBytes b \<and>
   memBytesWritten (snd (snd (multi_Read rs n b))) = memBytesWritten b \<and>
   diskBytesWritten (snd (snd (multi_Read rs n b))) = diskBytesWritten b"
proof (induction rs arbitrary: b)
  case Nil
  show ?case by simp
next
  case (Cons s ss)
  obtain d err b1 where r: "source_Read s n b = ((d, err), b1)"
    by (metis prod.exhaust)
  have f: "overflowed b1 = overflowed b" "maxBytes b1 = maxBytes b"
    "memBytesWritten b1 = memBytesWritten b" "diskBytesWritten b1 = diskBytesWritten b"
    using source_Read_fields [of s n b] r by simp_all
  show ?case using Cons.IH [of b1] f by (simp add: r Let_def)
qed

lemma setReader_fields:
  "overflowed (setReader b) = overflowed b"
  "maxBytes (setReader b) = maxBytes b"
  "memBytesWritten (setReader b) = memBytesWritten b"
  "diskBytesWritten (setReader b) = diskBytesWritten b"
  "reader (setReader b) \<noteq> None"
  by (simp_all add: setReader_def)

lemma Read_fields:
  "overflowed (snd (Read n b)) = overflowed b \<and>
   maxBytes (snd (Read n b)) = maxBytes b \<and>
   memBytesWritten (snd (Read n b)) = memBytesWritten b \<and>
   diskBytesWritten (snd (Read n b)) = diskBytesWritten b \<and>
   reader (snd (Read n b)) \<noteq> None"
proof (cases "reader (setReader b)")
  case None
  then show ?thesis using setReader_fields(5) [of b] by simp
next
  case (Some r)
  show ?thesis
  proof (cases r)
    case MemoryReader
    then show ?thesis
      using Some source_Read_fields [of FromMemory n "setReader b"]
      by (simp add: Read_def Let_def setReader_fields)
  next
    case (MultiReader rs)
    obtain res rs' b2 where m: "multi_Read rs n (setReader b) = (res, rs', b2)"
      by (metis prod.exhaust)
    show ?thesis
      using Some MultiReader m multi_Read_fields [of rs n "setReader b"]
      by (simp add: Read_def Let_def setReader_fields)
  qed
qed

lemma source_WriteTo_fields:
  "overflowed (snd (source_WriteTo s b)) = overflowed b"
  "maxBytes (snd (source_WriteTo s b)) = maxBytes b"
  "memBytesWritten (snd (source_WriteTo s b)) = memBytesWritten b"
  "diskBytesWritten (snd (source_WriteTo s b)) = diskBytesWritten b"
  "reader (snd (source_WriteTo s b)) = reader b"
  by (simp_all add: source_WriteTo_def split: source.splits option.splits prod.splits)

lemma multi_WriteTo_fields:
  "overflowed (snd (snd (multi_WriteTo rs b))) = overflowed b \<and>
   maxBytes (snd (snd (multi_WriteTo rs b))) = maxBytes b \<and>
   memBytesWritten (snd (snd (multi_WriteTo rs b))) = memBytesWritten b \<and>
   diskBytesWritten (snd (snd (multi_WriteTo rs b))) = diskBytesWritten b"
proof (induction rs arbitrary: b)
  case Nil
  show ?case by simp
next
  case (Cons s ss)
  obtain d err b1 where r: "source_WriteTo s b = ((d, err), b1)"
    by (metis prod.exhaust)
  have f: "overflowed b1 = overflowed b" "maxBytes b1 = maxBytes b"
    "memBytesWritten b1 = memBytesWritten b" "diskBytesWritten b1 = diskBytesWritten b"
    using source_WriteTo_fields [of s b] r by simp_all
  obtain ds e rs b2 where m: "multi_WriteTo ss b1 = ((ds, e), rs, b2)"
    by (metis prod.exhaust)
  show ?case using Cons.IH [of b1] f m
    by (cases err) (simp_all add: r)
qed

lemma Send_fields:
  "overflowed (snd (Send b)) = overflowed b \<and>
   maxBytes (snd (Send b)) = maxBytes b \<and>
   memBytesWritten (snd (Send b)) = memBytesWritten b \<and>
   diskBytesWritten (snd (Send b)) = diskBytesWritten b \<and>
   reader (snd (Send b)) \<noteq> None"
proof (cases "reader (setReader b)")
  case None
  then show ?thesis using setReader_fields(5) [of b] by simp
next
  case (Some r)
  show ?thesis
  proof (cases r)
    case MemoryReader
    then show ?thesis
      using Some source_WriteTo_fields [of FromMemory "setReader b"]
      by (simp add: Send_def Let_def setReader_fields)
  next
    case (MultiReader rs)
    obtain res rs' b2 where m: "multi_WriteTo rs (setReader b) = (res, rs', b2)"
      by (metis prod.exhaust)
    show ?thesis
      using Some MultiReader m multi_WriteTo_fields [of rs "setReader b"]
      by (simp add: Send_def Let_def setReader_fields)
  qed
qed

lemma Close_fields:
  "overflowed (Close b) = overflowed b"
  "maxBytes (Close b) = maxBytes b"
  "memBytesWritten (Close b) = memBytesWritten b"
  "diskBytesWritten (Close b) = diskBytesWritten b"
  "reader (Close b) = reader b"
  by (simp_all add: Close_def discardSpill_def split: option.splits)

lemma writeToDisk_fields:
  "overflowed (snd (writeToDisk env p b)) = overflowed b"
  "maxBytes (snd (writeToDisk env p b)) = maxBytes b"
  "memBytesWritten (snd (writeToDisk env p b)) = memBytesWritten b"
  "diskBytesWritten b \<le> diskBytesWritten (snd (writeToDisk env p b))"
  by (simp_all add: writeToDisk_def split: option.splits prod.splits)

lemma Write_fields:
  "(overflowed b \<longrightarrow> overflowed (snd (Write env p b))) \<and>
   maxBytes (snd (Write env p b)) = maxBytes b \<and>
   memBytesWritten b + diskBytesWritten b
     \<le> memBytesWritten (snd (Write env p b)) + diskBytesWritten (snd (Write env p b))"
proof -
  let ?b1 = "snd (createSpill env b)"
  let ?k = "nat (maxMemBytes ?b1 - memBytesWritten ?b1)"
  let ?b2 = "snd (writeToMemory (take ?k p) ?b1)"
  let ?q = "drop (length (take ?k p)) p"
  obtain res b3 where d2: "writeToDisk env ?q ?b2 = (res, b3)"
    by (metis prod.exhaust)
  have f2: "overflowed b3 = overflowed ?b2" "maxBytes b3 = maxBytes ?b2"
    "memBytesWritten b3 = memBytesWritten ?b2" "diskBytesWritten ?b2 \<le> diskBytesWritten b3"
    using writeToDisk_fields [where env = env and p = ?q and b = ?b2] d2 by simp_all
  show ?thesis
    using f2 d2 writeToDisk_fields [where env = env and p = p and b = b]
    by (auto simp add: Write_def Let_def writeToMemory_def createSpill_def
        split: if_splits prod.splits)
qed

lemma step_fields:
  "(overflowed b \<longrightarrow> overflowed (step b c)) \<and>
   maxBytes (step b c) = maxBytes b \<and>
   memBytesWritten b + diskBytesWritten b
     \<le> memBytesWritten (step b c) + diskBytesWritten (step b c)"
  using Write_fields Read_fields Send_fields Close_fields
  by (cases c) simp_all

lemma run_fields:
  "(overflowed b \<longrightarrow> overflowed (run cs b)) \<and>
   maxBytes (run cs b) = maxBytes b \<and>
   memBytesWritten b + diskBytesWritten b
     \<le> memBytesWritten (run cs b) + diskBytesWritten (run cs b)"
proof (induction cs arbitrary: b)
  case Nil
  show ?case by (simp add: run_def)
next
  case (Cons c cs)
  have r: "run (c # cs) b = run cs (step b c)" by (simp add: run_def)
  show ?case using Cons.IH [of "step b c"] step_fields [of b c]
    by (simp only: r) linarith
qed

lemma step_reader:
  "(reader (step b c) \<noteq> None) = (reader b \<noteq> None \<or> is_read c)"
  using Write_reader Read_fields Send_fields Close_fields(5)
  by (cases c) simp_all

lemma run_reader:
  "(reader (run cs b) \<noteq> None) = (reader b \<noteq> None \<or> (\<exists>c \<in> set cs. is_read c))"
proof (induction cs arbitrary: b)
  case Nil
  show ?case by (simp add: run_def)
next
  case (Cons c cs)
  have r: "run (c # cs) b = run cs (step b c)" by (simp add: run_def)
  show ?case using Cons.IH [of "step b c"] step_reader [of b c]
    by (simp only: r) auto
qed

subsection \<open>The invariant of the write phase\<close>

lemma holding_empty: "0 \<le> mm \<Longrightarrow> NewBufferedWriteCloser mb mm = holding mb mm []"
  by (simp add: NewBufferedWriteCloser_def holding_def)

lemma Write_holding:
  assumes "0 \<le> mm"
    and "0 < mb \<longrightarrow> int (length data) + int (length p) \<le> mb"
    and "env = io_ok \<or> int (length data) + int (length p) \<le> mm"
  shows "Write env p (holding mb mm data) = ((length p, None), holding mb mm (data @ p))"
proof -
  have c: "\<not> (0 < mb \<and> mb < int (min (length data) (nat mm)) + int (length data - nat mm) + int (length p))"
    using assms(1,2) by (auto simp add: min_def)
  consider (disk) "mm < int (length data)"
    | (mem) "int (length data) + int (length p) \<le> mm"
    | (cross) "int (length data) \<le> mm" "mm < int (length data) + int (length p)"
    by linarith
  then show ?thesis
  proof cases
    case disk
    then have e: "env = io_ok" using assms by linarith
    from disk assms(1) have n: "nat mm < length data" by linarith
    show ?thesis using disk assms(1) n c
      by (simp add: Write_def holding_def writeToDisk_def file_Write_def io_ok_def e Let_def)
  next
    case mem
    then have n: "length data + length p \<le> nat mm" using assms(1) by linarith
    show ?thesis using mem assms(1) n c
      by (simp add: Write_def holding_def writeToMemory_def Let_def)
  next
    case cross
    then have e: "env = io_ok" using assms by linarith
    from cross assms(1) have n: "length data \<le> nat mm" "nat mm < length data + length p" by linarith+
    show ?thesis using cross assms(1) n c
      by (simp add: Write_def holding_def writeToDisk_def writeToMemory_def createSpill_def
          file_Write_def io_ok_def e Let_def nat_diff_distrib')
  qed
qed


lemma writes_Cons: "writes (w # ws) b = writes ws (snd (Write (fst w) (snd w) b))"
  by (simp add: writes_def)

lemma written_Cons: "written (w # ws) = snd w @ written ws"
  by (simp add: written_def)

lemma total_size_Cons: "total_size (w # ws) = int (length (snd w)) + total_size ws"
  by (simp add: total_size_def written_def)

lemma total_size_nonneg: "0 \<le> total_size ws"
  by (simp add: total_size_def)

lemma writes_holding:
  assumes "0 \<le> mm"
    and "0 < mb \<longrightarrow> int (length data) + total_size ws \<le> mb"
    and "(\<forall>w \<in> set ws. fst w = io_ok) \<or> int (length data) + total_size ws \<le> mm"
  shows "writes ws (holding mb mm data) = holding mb mm (data @ written ws) \<and>
         write_results ws (holding mb mm data) = map (\<lambda>w. (length (snd w), None)) ws"
  using assms
proof (induction ws arbitrary: data)
  case Nil
  show ?case by (simp add: writes_def written_def)
next
  case (Cons w ws)
  have t: "0 \<le> total_size ws" by (rule total_size_nonneg)
  have a: "0 < mb \<longrightarrow> int (length data) + int (length (snd w)) \<le> mb"
    using Cons.prems(2) t by (auto simp add: total_size_Cons)
  have b: "fst w = io_ok \<or> int (length data) + int (length (snd w)) \<le> mm"
    using Cons.prems(3) t by (auto simp add: total_size_Cons)
  have w: "Write (fst w) (snd w) (holding mb mm data)
           = ((length (snd w), None), holding mb mm (data @ snd w))"
    by (rule Write_holding [OF Cons.prems(1) a b])
  have a': "0 < mb \<longrightarrow> int (length (data @ snd w)) + total_size ws \<le> mb"
    using Cons.prems(2) by (auto simp add: total_size_Cons)
  have b': "(\<forall>w \<in> set ws. fst w = io_ok) \<or> int (length (data @ snd w)) + total_size ws \<le> mm"
    using Cons.prems(3) by (auto simp add: total_size_Cons)
  show ?case
    using Cons.IH [OF Cons.prems(1) a' b'] by (simp add: writes_Cons w written_Cons)
qed

subsection \<open>The read phase\<close>

lemma take_drop_offset:
  "take n (drop off c) @ drop (off + min n (length (drop off c))) c = drop off c"
proof -
  have "drop (off + min n (length (drop off c))) c
        = drop (min n (length (drop off c))) (drop off c)"
    by (simp add: add.commute)
  also have "\<dots> = drop n (drop off c)"
    by (simp add: min_def)
  finally have e: "drop (off + min n (length (drop off c))) c = drop n (drop off c)" .
  show ?thesis by (simp only: e append_take_drop_id)
qed

lemma source_Read_pending:
  assumes "0 < n" and "s = FromDisk \<longrightarrow> disk_open b"
    and "source_Read s n b = ((d, e), b1)"
  shows "((e = None \<and> d \<noteq> [] \<and> d @ source_pending b1 s = source_pending b s) \<or>
          (e = Some EOF \<and> d = [] \<and> source_pending b s = [])) \<and>
         (\<forall>s'. s' \<noteq> s \<longrightarrow> source_pending b1 s' = source_pending b s') \<and>
         disk_open b1 = disk_open b"
proof (cases s)
  case FromMemory
  then show ?thesis using assms
    by (auto simp add: source_Read_def bytes_Read_def source_pending_def disk_open_def
        split: if_splits source.splits)
next
  case FromDisk
  then obtain f where f: "diskBuffer b = Some f" "\<not> closed f"
    using assms(2) by (auto simp add: disk_open_def split: option.splits)
  show ?thesis using assms(1,3) FromDisk f take_drop_offset [of n "offset f" "contents f"]
    by (auto simp add: source_Read_def file_Read_def source_pending_def disk_open_def Let_def
        split: if_splits source.splits)
qed


lemma source_pending_cong:
  "\<forall>s'. s' \<noteq> s \<longrightarrow> source_pending b1 s' = source_pending b s' \<Longrightarrow> s \<notin> set ss \<Longrightarrow>
   concat (map (source_pending b1) ss) = concat (map (source_pending b) ss)"
  by (induction ss) auto

lemma multi_Read_pending:
  assumes "0 < n" and "distinct rs" and "FromDisk \<in> set rs \<longrightarrow> disk_open b"
    and "multi_Read rs n b = ((d, e), rs', b')"
  shows "distinct rs' \<and> (FromDisk \<in> set rs' \<longrightarrow> disk_open b') \<and>
         ((e = None \<and> d \<noteq> [] \<and>
           d @ concat (map (source_pending b') rs') = concat (map (source_pending b) rs)) \<or>
          (e = Some EOF \<and> d = [] \<and> concat (map (source_pending b) rs) = []))"
  using assms(2-4)
proof (induction rs arbitrary: b)
  case Nil
  then show ?case by simp
next
  case (Cons s ss)
  obtain d1 e1 b1 where r: "source_Read s n b = ((d1, e1), b1)"
    by (metis prod.exhaust)
  have o: "s = FromDisk \<longrightarrow> disk_open b" using Cons.prems(2) by simp
  note p = source_Read_pending [OF assms(1) o r]
  have same: "concat (map (source_pending b1) ss) = concat (map (source_pending b) ss)"
  proof (rule source_pending_cong)
    show "\<forall>s'. s' \<noteq> s \<longrightarrow> source_pending b1 s' = source_pending b s'"
      using p by blast
    show "s \<notin> set ss" using Cons.prems(1) by simp
  qed
  from p consider (data) "e1 = None" "d1 \<noteq> []" "d1 @ source_pending b1 s = source_pending b s"
    | (eof) "e1 = Some EOF" "d1 = []" "source_pending b s = []"
    by blast
  then show ?case
  proof cases
    case data
    have res: "d = d1" "e = None" "rs' = s # ss" "b' = b1"
      using Cons.prems(3) data by (simp_all add: r)
    show ?thesis using res data same p Cons.prems(1,2)
      by (metis (no_types, lifting) append.assoc concat.simps(2) list.simps(9))
  next
    case eof
    have rec: "multi_Read ss n b1 = ((d, e), rs', b')"
      using Cons.prems(3) eof by (simp add: r)
    have d: "distinct ss" using Cons.prems(1) by simp
    have o': "FromDisk \<in> set ss \<longrightarrow> disk_open b1" using Cons.prems(2) p by simp
    show ?thesis using Cons.IH [OF d o' rec] same eof by simp
  qed
qed

lemma pending_reader_update:
  "source_pending (b\<lparr>reader := r\<rparr>) = source_pending b"
  "disk_open (b\<lparr>reader := r\<rparr>) = disk_open b"
  by (simp_all add: fun_eq_iff source_pending_def disk_open_def split: source.splits)

lemma setReader_idem: "reader b \<noteq> None \<Longrightarrow> setReader b = b"
  by (auto simp add: setReader_def)

lemma Read_readable:
  assumes "0 < n" and "readable b" and "Read n b = ((d, e), b')"
  shows "readable b' \<and>
         ((e = None \<and> d \<noteq> [] \<and> d @ pending b' = pending b) \<or>
          (e = Some EOF \<and> d = [] \<and> pending b = []))"
proof -
  from assms(2) obtain r where r: "reader b = Some r"
    by (auto simp add: readable_def split: option.splits)
  then have sr: "setReader b = b" by (simp add: setReader_idem)
  show ?thesis
  proof (cases r)
    case MemoryReader
    have rd: "source_Read FromMemory n b = ((d, e), b')"
      using assms(3) r MemoryReader by (simp add: Read_def sr)
    have rb: "reader b' = reader b"
      using source_Read_fields(5) [of FromMemory n b] rd by simp
    show ?thesis
      using source_Read_pending [OF assms(1) _ rd] r rb MemoryReader
      by (simp add: readable_def pending_def source_pending_def)
  next
    case (MultiReader rs)
    obtain rs' b2 where m: "multi_Read rs n b = ((d, e), rs', b2)"
      and b': "b' = b2\<lparr>reader := Some (MultiReader rs')\<rparr>"
      using assms(3) r MultiReader
      by (auto simp add: Read_def sr split: prod.splits)
    have ds: "distinct rs" and op: "FromDisk \<in> set rs \<longrightarrow> disk_open b"
      using assms(2) r MultiReader by (simp_all add: readable_def)
    show ?thesis
      using multi_Read_pending [OF assms(1) ds op m] r MultiReader b'
      by (simp add: readable_def pending_def pending_reader_update)
  qed
qed

lemma read_loop_readable:
  assumes "0 < n"
  shows "readable b \<Longrightarrow> length (pending b) < fuel \<Longrightarrow>
         \<exists>b'. read_loop fuel n b = Some ((pending b, Some EOF), b')"
proof (induction fuel arbitrary: b)
  case 0
  then show ?case by simp
next
  case (Suc fuel)
  obtain d e b1 where r: "Read n b = ((d, e), b1)"
    by (metis prod.exhaust)
  note p = Read_readable [OF assms Suc.prems(1) r]
  from p consider (data) "e = None" "d \<noteq> []" "d @ pending b1 = pending b"
    | (eof) "e = Some EOF" "d = []" "pending b = []"
    by blast
  then show ?case
  proof cases
    case data
    have "length (pending b1) < length (pending b)"
      using data(2,3) by (metis length_append length_greater_0_conv less_add_same_cancel2)
    then have l: "length (pending b1) < fuel" using Suc.prems(2) by linarith
    from Suc.IH [OF _ l] p obtain b2 where
      "read_loop fuel n b1 = Some ((pending b1, Some EOF), b2)" by blast
    then show ?thesis using data by (auto simp add: r)
  next
    case eof
    then show ?thesis by (simp add: r)
  qed
qed


lemma source_WriteTo_pending:
  assumes "s = FromDisk \<longrightarrow> disk_open b"
  shows "fst (source_WriteTo s b) = (source_pending b s, None) \<and>
         (\<forall>s'. s' \<noteq> s \<longrightarrow> source_pending (snd (source_WriteTo s b)) s' = source_pending b s') \<and>
         disk_open (snd (source_WriteTo s b)) = disk_open b"
  using assms
  by (auto simp add: source_WriteTo_def source_pending_def disk_open_def
      split: source.splits option.splits)

lemma multi_WriteTo_pending:
  assumes "distinct rs" and "FromDisk \<in> set rs \<longrightarrow> disk_open b"
  shows "fst (multi_WriteTo rs b) = (concat (map (source_pending b) rs), None)"
  using assms
proof (induction rs arbitrary: b)
  case Nil
  show ?case by simp
next
  case (Cons s ss)
  obtain d e b1 where r: "source_WriteTo s b = ((d, e), b1)"
    by (metis prod.exhaust)
  have o: "s = FromDisk \<longrightarrow> disk_open b" using Cons.prems(2) by simp
  note p = source_WriteTo_pending [OF o]
  have de: "d = source_pending b s" "e = None" using p r by simp_all
  have same: "concat (map (source_pending b1) ss) = concat (map (source_pending b) ss)"
  proof (rule source_pending_cong)
    show "\<forall>s'. s' \<noteq> s \<longrightarrow> source_pending b1 s' = source_pending b s'"
      using p r by simp
    show "s \<notin> set ss" using Cons.prems(1) by simp
  qed
  have d: "distinct ss" using Cons.prems(1) by simp
  have o': "FromDisk \<in> set ss \<longrightarrow> disk_open b1" using Cons.prems(2) p r by simp
  obtain ds e2 rs2 b2 where m: "multi_WriteTo ss b1 = ((ds, e2), rs2, b2)"
    by (metis prod.exhaust)
  show ?case using Cons.IH [OF d o'] same de m by (simp add: r)
qed

lemma Send_readable:
  assumes "readable b"
  shows "fst (Send b) = (pending b, None)"
proof -
  from assms obtain r where r: "reader b = Some r"
    by (auto simp add: readable_def split: option.splits)
  then have sr: "setReader b = b" by (simp add: setReader_idem)
  show ?thesis
  proof (cases r)
    case MemoryReader
    then show ?thesis using r
      by (simp add: Send_def sr source_WriteTo_def pending_def)
  next
    case (MultiReader rs)
    have ds: "distinct rs" and op: "FromDisk \<in> set rs \<longrightarrow> disk_open b"
      using assms r MultiReader by (simp_all add: readable_def)
    obtain res rs' b2 where m: "multi_WriteTo rs b = (res, rs', b2)"
      by (metis prod.exhaust)
    show ?thesis
      using multi_WriteTo_pending [OF ds op] r MultiReader m
      by (simp add: Send_def sr pending_def)
  qed
qed

lemma Read_setReader: "Read n (setReader b) = Read n b"
  by (simp add: Read_def setReader_idem setReader_fields(5))

lemma Send_setReader: "Send (setReader b) = Send b"
  by (simp add: Send_def setReader_idem setReader_fields(5))

lemma read_loop_setReader: "read_loop fuel n (setReader b) = read_loop fuel n b"
  by (cases fuel) (simp_all add: Read_setReader)

lemma holding_readable:
  assumes "0 \<le> mm"
  shows "readable (setReader (holding mb mm data)) \<and>
         pending (setReader (holding mb mm data)) = data"
proof (cases "mm < int (length data)")
  case True
  then show ?thesis
    by (simp add: setReader_def holding_def readable_def pending_def source_pending_def
        disk_open_def file_Seek0_def)
next
  case False
  then have "length data \<le> nat mm" using assms by linarith
  then show ?thesis using False
    by (simp add: setReader_def holding_def readable_def pending_def)
qed

lemma holding_full_read:
  assumes "0 \<le> mm"
  shows "fst (Send (holding mb mm data)) = (data, None) \<and>
         (0 < n \<and> length data < fuel \<longrightarrow>
            map_option fst (read_loop fuel n (holding mb mm data)) = Some (data, Some EOF))"
proof -
  note h = holding_readable [OF assms, of mb data]
  have s: "fst (Send (holding mb mm data)) = (data, None)"
    using Send_readable [of "setReader (holding mb mm data)"] h
    by (simp add: Send_setReader)
  have l: "map_option fst (read_loop fuel n (holding mb mm data)) = Some (data, Some EOF)"
    if "0 < n" "length data < fuel"
  proof -
    from read_loop_readable [OF that(1), of "setReader (holding mb mm data)" fuel] h that(2)
    obtain b' where "read_loop fuel n (setReader (holding mb mm data)) = Some ((data, Some EOF), b')"
      by auto
    then show ?thesis by (simp add: read_loop_setReader)
  qed
  show ?thesis using s l by blast
qed

subsection \<open>Writes that stay in memory\<close>

lemma Write_no_spill:
  assumes "diskBuffer b = None" and "memBytesWritten b + int (length p) \<le> maxMemBytes b"
  shows "diskBuffer (snd (Write env p b)) = None \<and>
         spillsCreated (snd (Write env p b)) = spillsCreated b \<and>
         maxMemBytes (snd (Write env p b)) = maxMemBytes b \<and>
         memBytesWritten (snd (Write env p b)) \<le> memBytesWritten b + int (length p)"
  using assms by (simp add: Write_def Let_def writeToMemory_def)

lemma writes_no_spill:
  assumes "diskBuffer b = None" and "memBytesWritten b + total_size ws \<le> maxMemBytes b"
  shows "diskBuffer (writes ws b) = None \<and> spillsCreated (writes ws b) = spillsCreated b"
  using assms
proof (induction ws arbitrary: b)
  case Nil
  then show ?case by (simp add: writes_def)
next
  case (Cons w ws)
  let ?b = "snd (Write (fst w) (snd w) b)"
  have t: "0 \<le> total_size ws" by (rule total_size_nonneg)
  have a: "memBytesWritten b + int (length (snd w)) \<le> maxMemBytes b"
    using Cons.prems(2) t by (simp add: total_size_Cons)
  note s = Write_no_spill [OF Cons.prems(1) a, of "fst w"]
  have b: "memBytesWritten ?b + total_size ws \<le> maxMemBytes ?b"
    using s Cons.prems(2) by (simp add: total_size_Cons)
  show ?case using Cons.IH [of ?b] s b by (simp add: writes_Cons)
qed

lemma total_size_take: "total_size (take n ws) \<le> total_size ws"
proof -
  have "total_size ws = total_size (take n ws) + total_size (drop n ws)"
    by (metis append_take_drop_id concat_append length_append map_append of_nat_add
        total_size_def written_def)
  then show ?thesis using total_size_nonneg [of "drop n ws"] by linarith
qed

subsection \<open>The invariant is kept\<close>

lemma write_inv_new: "0 \<le> mm \<Longrightarrow> write_inv (NewBufferedWriteCloser mb mm)"
  by (simp add: write_inv_def NewBufferedWriteCloser_def)

lemma file_Write_at_end:
  assumes "offset f = length (contents f)" and "\<not> closed f"
    and "file_Write fault f p = ((n, err), f')"
  shows "int (length (contents f')) = int (length (contents f)) + int n \<and>
         offset f' = length (contents f') \<and> \<not> closed f' \<and> n \<le> length p \<and>
         (fault = None \<longrightarrow> n = length p)"
  using assms by (auto simp add: file_Write_def Let_def split: option.splits)

lemma writeToDisk_inv:
  assumes "write_inv b" and "diskBuffer b \<noteq> None"
    and "0 < maxBytes b \<longrightarrow> memBytesWritten b + diskBytesWritten b + int (length p) \<le> maxBytes b"
  shows "write_inv (snd (writeToDisk env p b)) \<and>
         diskBuffer (snd (writeToDisk env p b)) \<noteq> None \<and>
         (diskWrite_fails env = None \<longrightarrow>
            diskBytesWritten (snd (writeToDisk env p b)) = diskBytesWritten b + int (length p))"
proof -
  from assms(2) obtain f where f: "diskBuffer b = Some f" by auto
  obtain n err f' where w: "file_Write (diskWrite_fails env) f p = ((n, err), f')"
    by (metis prod.exhaust)
  have e: "offset f = length (contents f)" "\<not> closed f"
    "diskBytesWritten b = int (length (contents f))"
    using assms(1) f by (simp_all add: write_inv_def)
  note a = file_Write_at_end [OF e(1,2) w]
  have res: "writeToDisk env p b
             = ((n, err), b\<lparr>diskBuffer := Some f',
                               diskBytesWritten := diskBytesWritten b + int n\<rparr>)"
    by (simp add: writeToDisk_def f w)
  have i: "write_inv (b\<lparr>diskBuffer := Some f',
                         diskBytesWritten := diskBytesWritten b + int n\<rparr>)"
    using a assms(1,3) e(3) by (auto simp add: write_inv_def)
  show ?thesis using a i e(3) by (simp add: res)
qed

lemma Write_crossing:
  assumes "reader b = None" and "diskBuffer b = None"
    and "\<not> (0 < maxBytes b \<and> maxBytes b < memBytesWritten b + diskBytesWritten b + int (length p))"
    and "maxMemBytes b < memBytesWritten b + int (length p)"
    and "memBytesWritten b \<le> maxMemBytes b"
    and "\<not> createTemp_fails env"
  shows "snd (Write env p b)
         = snd (writeToDisk env (drop (nat (maxMemBytes b - memBytesWritten b)) p)
             (b\<lparr>diskBuffer := Some \<lparr>contents = [], offset = 0, closed = False\<rparr>,
                spillsCreated := Suc (spillsCreated b),
                memoryBuffer := memoryBuffer b @ take (nat (maxMemBytes b - memBytesWritten b)) p,
                memBytesWritten := memBytesWritten b
                  + int (length (take (nat (maxMemBytes b - memBytesWritten b)) p))\<rparr>))"
proof -
  let ?k = "nat (maxMemBytes b - memBytesWritten b)"
  let ?b2 = "b\<lparr>diskBuffer := Some \<lparr>contents = [], offset = 0, closed = False\<rparr>,
                spillsCreated := Suc (spillsCreated b),
                memoryBuffer := memoryBuffer b @ take ?k p,
                memBytesWritten := memBytesWritten b + int (length (take ?k p))\<rparr>"
  have k: "?k < length p" using assms(4,5) by linarith
  have c1: "(0 < maxBytes b \<and>
             maxBytes b < memBytesWritten b + diskBytesWritten b + int (length p)) = False"
    using assms(3) by simp
  have c3: "(memBytesWritten b + int (length p) \<le> maxMemBytes b) = False"
    using assms(4) by simp
  have c4: "(maxMemBytes b < memBytesWritten b) = False"
    using assms(5) by simp
  have mk: "min (length p) ?k = ?k"
    using k by simp
  obtain res b3 where d: "writeToDisk env (drop ?k p) ?b2 = (res, b3)"
    by (metis prod.exhaust)
  show ?thesis
    unfolding Write_def Let_def createSpill_def writeToMemory_def
    using d by (simp add: assms(1,2,6) c1 c3 c4 mk split: prod.splits)
qed

lemma Write_inv:
  assumes "write_inv b"
  shows "write_inv (snd (Write env p b)) \<and>
         (diskWrite_fails env = None \<longrightarrow>
          (diskBuffer b \<noteq> None \<longrightarrow> 0 < diskBytesWritten b) \<longrightarrow>
          (diskBuffer (snd (Write env p b)) \<noteq> None \<longrightarrow>
             0 < diskBytesWritten (snd (Write env p b))))"
proof -
  have r: "reader b = None" and mm: "0 \<le> maxMemBytes b"
    and ml: "memBytesWritten b = int (length (memoryBuffer b))"
    and mle: "memBytesWritten b \<le> maxMemBytes b"
    using assms by (simp_all add: write_inv_def)
  consider (over) "0 < maxBytes b \<and> maxBytes b < memBytesWritten b + diskBytesWritten b + int (length p)"
    | (disk) "\<not> (0 < maxBytes b \<and> maxBytes b < memBytesWritten b + diskBytesWritten b + int (length p))"
        "diskBuffer b \<noteq> None"
    | (mem) "\<not> (0 < maxBytes b \<and> maxBytes b < memBytesWritten b + diskBytesWritten b + int (length p))"
        "diskBuffer b = None" "memBytesWritten b + int (length p) \<le> maxMemBytes b"
    | (cross) "\<not> (0 < maxBytes b \<and> maxBytes b < memBytesWritten b + diskBytesWritten b + int (length p))"
        "diskBuffer b = None" "maxMemBytes b < memBytesWritten b + int (length p)"
    by linarith
  then show ?thesis
  proof cases
    case over
    then show ?thesis using assms r
      by (simp add: Write_def Let_def write_inv_def split: option.splits)
  next
    case disk
    have c: "0 < maxBytes b \<longrightarrow> memBytesWritten b + diskBytesWritten b + int (length p) \<le> maxBytes b"
      using disk(1) by linarith
    have w: "Write env p b = writeToDisk env p b"
      using disk r by (auto simp add: Write_def Let_def)
    show ?thesis using writeToDisk_inv [OF assms disk(2) c, of env] disk(2)
      by (auto simp add: w)
  next
    case mem
    then show ?thesis using assms r
      by (auto simp add: Write_def Let_def writeToMemory_def write_inv_def)
  next
    case cross
    show ?thesis
    proof (cases "createTemp_fails env")
      case True
      then show ?thesis using cross assms r
        by (auto simp add: Write_def Let_def createSpill_def)
    next
      case False
      let ?k = "nat (maxMemBytes b - memBytesWritten b)"
      let ?b2 = "b\<lparr>diskBuffer := Some \<lparr>contents = [], offset = 0, closed = False\<rparr>,
                   spillsCreated := Suc (spillsCreated b),
                   memoryBuffer := memoryBuffer b @ take ?k p,
                   memBytesWritten := memBytesWritten b + int (length (take ?k p))\<rparr>"
      have k: "?k < length p" "int ?k = maxMemBytes b - memBytesWritten b"
        using cross(3) mle by linarith+
      have dz: "diskBytesWritten b = 0" using assms cross(2) by (simp add: write_inv_def)
      have le: "0 < maxBytes b \<longrightarrow> maxMemBytes b \<le> maxBytes b"
        using cross(1,3) dz by linarith
      have i2: "write_inv ?b2"
        using assms k dz le by (simp add: write_inv_def min_def)
      have c2: "0 < maxBytes ?b2 \<longrightarrow>
                memBytesWritten ?b2 + diskBytesWritten ?b2 + int (length (drop ?k p)) \<le> maxBytes ?b2"
        using cross(1) k dz by (auto simp add: min_def)
      have w: "snd (Write env p b) = snd (writeToDisk env (drop ?k p) ?b2)"
        by (rule Write_crossing [OF r cross(2) cross(1) cross(3) mle False])
      have "0 < length p - ?k" using k(1) by linarith
      then have pos: "0 < int (length (drop ?k p))" by (simp only: length_drop of_nat_0_less_iff)
      let ?b3 = "snd (writeToDisk env (drop ?k p) ?b2)"
      have d2: "diskBytesWritten ?b2 = 0" using dz by simp
      have n2: "diskBuffer ?b2 \<noteq> None" by simp
      from writeToDisk_inv [OF i2 n2 c2, of env]
      have A: "write_inv ?b3"
        and C: "diskWrite_fails env = None \<longrightarrow>
                diskBytesWritten ?b3 = diskBytesWritten ?b2 + int (length (drop ?k p))"
        by blast+
      have P: "0 < diskBytesWritten ?b3" if "diskWrite_fails env = None"
      proof -
        from C that have "diskBytesWritten ?b3 = diskBytesWritten ?b2 + int (length (drop ?k p))"
          by blast
        then show ?thesis using d2 pos by linarith
      qed
      show ?thesis unfolding w using A P by blast
    qed
  qed
qed

lemma writes_inv: "write_inv b \<Longrightarrow> write_inv (writes ws b)"
proof (induction ws arbitrary: b)
  case Nil
  then show ?case by (simp add: writes_def)
next
  case (Cons w ws)
  have "write_inv (snd (Write (fst w) (snd w) b))"
    using Write_inv [OF Cons.prems] by blast
  then show ?case using Cons.IH by (simp add: writes_Cons)
qed

lemma writes_spilled:
  assumes "write_inv b" and "diskBuffer b \<noteq> None \<longrightarrow> 0 < diskBytesWritten b"
    and "\<forall>w \<in> set ws. diskWrite_fails (fst w) = None"
  shows "diskBuffer (writes ws b) \<noteq> None \<longrightarrow> 0 < diskBytesWritten (writes ws b)"
  using assms
proof (induction ws arbitrary: b)
  case Nil
  then show ?case by (simp add: writes_def)
next
  case (Cons w ws)
  let ?b = "snd (Write (fst w) (snd w) b)"
  note s = Write_inv [OF Cons.prems(1), of "fst w" "snd w"]
  have i: "write_inv ?b" using s by blast
  have p: "diskBuffer ?b \<noteq> None \<longrightarrow> 0 < diskBytesWritten ?b"
    using s Cons.prems(2,3) by simp
  have e: "\<forall>w \<in> set ws. diskWrite_fails (fst w) = None"
    using Cons.prems(3) by simp
  show ?case using Cons.IH [OF i p e] by (simp add: writes_Cons)
qed

lemma Write_config:
  "maxMemBytes (snd (Write env p b)) = maxMemBytes b"
proof -
  have d: "maxMemBytes c' = maxMemBytes c" if "writeToDisk env q c = (res, c')" for q c res c'
    using that by (auto simp add: writeToDisk_def split: option.splits prod.splits)
  have d1: "maxMemBytes (snd (writeToDisk env q c)) = maxMemBytes c" for q c
    by (simp add: writeToDisk_def split: option.splits prod.splits)
  show ?thesis
    by (auto simp add: Write_def Let_def writeToMemory_def createSpill_def d1
        split: prod.splits option.splits dest!: d)
qed

lemma writes_config:
  "maxMemBytes (writes ws b) = maxMemBytes b \<and> maxBytes (writes ws b) = maxBytes b"
proof (induction ws arbitrary: b)
  case Nil
  show ?case by (simp add: writes_def)
next
  case (Cons w ws)
  show ?case using Cons.IH [of "snd (Write (fst w) (snd w) b)"] Write_fields [of b "fst w" "snd w"]
    by (simp add: writes_Cons Write_config)
qed

lemma new_fields:
  "maxBytes (NewBufferedWriteCloser mb mm) = mb"
  "maxMemBytes (NewBufferedWriteCloser mb mm) = mm"
  "reader (NewBufferedWriteCloser mb mm) = None"
  "diskBuffer (NewBufferedWriteCloser mb mm) = None"
  "memBytesWritten (NewBufferedWriteCloser mb mm) = 0"
  "diskBytesWritten (NewBufferedWriteCloser mb mm) = 0"
  "spillsCreated (NewBufferedWriteCloser mb mm) = 0"
  by (simp_all add: NewBufferedWriteCloser_def)

lemma write_inv_disk:
  assumes "write_inv b"
  shows "diskBytesWritten b = int (length (disk_bytes b)) \<and>
         (0 < diskBytesWritten b \<longrightarrow> diskBuffer b \<noteq> None)"
  using assms by (auto simp add: write_inv_def disk_bytes_def split: option.splits)

lemmas buffer_defs =
  NewBufferedWriteCloser_def Write_def writeToMemory_def writeToDisk_def createSpill_def
  file_Write_def file_Read_def file_Seek0_def bytes_Read_def setReader_def source_Read_def
  Read_def source_WriteTo_def Send_def Close_def discardSpill_def Overflowed_def
  writes_def run_def written_def total_size_def io_ok_def disk_bytes_def Let_def

subsection \<open>The overflow flag\<close>

text \<open>
  A write that is rejected for its size sets the flag \<open>overflowed\<close>, but \<open>Write\<close>
  never reads the flag: with a ceiling of 10 bytes, after 6 bytes are written and a
  second write of 6 bytes is rejected, a write of 1 byte is accepted and stored.
\<close>

theorem C1_later_write_accepted:
  "write_results [(io_ok, [1, 2, 3, 4, 5, 6]), (io_ok, [1, 2, 3, 4, 5, 6]), (io_ok, [7])]
     (NewBufferedWriteCloser 10 100)
   = [(6, None), (0, Some ErrMaximumSizeExceeded), (1, None)] \<and>
   Overflowed (writes [(io_ok, [1, 2, 3, 4, 5, 6]), (io_ok, [1, 2, 3, 4, 5, 6]), (io_ok, [7])]
     (NewBufferedWriteCloser 10 100)) \<and>
   memoryBuffer (writes [(io_ok, [1, 2, 3, 4, 5, 6]), (io_ok, [1, 2, 3, 4, 5, 6]), (io_ok, [7])]
     (NewBufferedWriteCloser 10 100))
   = [1, 2, 3, 4, 5, 6, 7]"
  by (simp add: buffer_defs)

text \<open>
  C1, amended: once a write has failed with the size-exceeded error, that write has
  accepted no byte, and the flag \<open>overflowed\<close> is true and stays true through every
  later call of \<open>Write\<close>, \<open>Read\<close>, \<open>Send\<close> and \<open>Close\<close>. A later write fails with the
  size-exceeded error exactly when no read has begun and its own length added to the bytes
  written so far exceeds the ceiling; so, as long as no read has begun, every later write
  that is at least as long as the rejected one is rejected again.
\<close>

theorem C1_overflow_sticky:
  assumes "snd (fst (Write env p b)) = Some ErrMaximumSizeExceeded"
  shows "fst (fst (Write env p b)) = 0 \<and>
         Overflowed (run cs (snd (Write env p b))) \<and>
         (snd (fst (Write env' q (run cs (snd (Write env p b))))) = Some ErrMaximumSizeExceeded)
          = (reader (run cs (snd (Write env p b))) = None \<and>
             0 < maxBytes (run cs (snd (Write env p b))) \<and>
             maxBytes (run cs (snd (Write env p b)))
               < memBytesWritten (run cs (snd (Write env p b)))
                 + diskBytesWritten (run cs (snd (Write env p b))) + int (length q)) \<and>
         ((\<forall>c \<in> set cs. \<not> is_read c) \<and> length p \<le> length q \<longrightarrow>
            snd (fst (Write env' q (run cs (snd (Write env p b))))) = Some ErrMaximumSizeExceeded)"
proof -
  let ?b1 = "snd (Write env p b)"
  let ?b2 = "run cs ?b1"
  have a: "reader b = None" "0 < maxBytes b"
    "maxBytes b < memBytesWritten b + diskBytesWritten b + int (length p)"
    using assms by (simp_all add: Write_exceeded_iff)
  have w: "Write env p b = ((0, Some ErrMaximumSizeExceeded), b\<lparr>overflowed := True\<rparr>)"
    by (rule Write_rejected [OF a])
  have b1: "overflowed ?b1" "reader ?b1 = None" "maxBytes ?b1 = maxBytes b"
    "memBytesWritten ?b1 + diskBytesWritten ?b1 = memBytesWritten b + diskBytesWritten b"
    using a(1) by (simp_all add: w)
  note f = run_fields [of ?b1 cs]
  have o: "Overflowed ?b2" using f b1(1) by (simp add: Overflowed_def)
  have again: "snd (fst (Write env' q ?b2)) = Some ErrMaximumSizeExceeded"
    if "\<forall>c \<in> set cs. \<not> is_read c" "length p \<le> length q"
  proof -
    have r: "reader ?b2 = None"
      using run_reader [of cs ?b1] b1(2) that(1) by auto
    have "maxBytes ?b2 < memBytesWritten ?b2 + diskBytesWritten ?b2 + int (length q)"
      using f b1(3,4) a(3) that(2) by linarith
    moreover have "0 < maxBytes ?b2" using f b1(3) a(2) by simp
    ultimately show ?thesis using r by (simp add: Write_exceeded_iff)
  qed
  show ?thesis using o again by (simp add: w Write_exceeded_iff)
qed

theorem C1_overflow_sticky_witness:
  "snd (fst (Write io_ok [1, 2, 3, 4] (NewBufferedWriteCloser 3 100)))
     = Some ErrMaximumSizeExceeded \<and>
   Overflowed (run [CallWrite io_ok [9], CallRead 1, CallClose]
     (snd (Write io_ok [1, 2, 3, 4] (NewBufferedWriteCloser 3 100)))) \<and>
   snd (fst (Write io_ok [5, 6, 7, 8] (run [CallWrite io_ok [9]]
     (snd (Write io_ok [1, 2, 3, 4] (NewBufferedWriteCloser 3 100))))))
     = Some ErrMaximumSizeExceeded"
proof -
  have h: "snd (fst (Write io_ok [1, 2, 3, 4] (NewBufferedWriteCloser 3 100)))
           = Some ErrMaximumSizeExceeded"
    by (simp add: buffer_defs)
  have n: "\<forall>c \<in> set [CallWrite io_ok [9]]. \<not> is_read c" by simp
  have l: "length [1, 2, 3, 4 :: byte] \<le> length [5, 6, 7, 8 :: byte]" by simp
  show ?thesis
    using h n l
      C1_overflow_sticky [OF h, of "[CallWrite io_ok [9], CallRead 1, CallClose]"]
      C1_overflow_sticky [OF h, of "[CallWrite io_ok [9]]" io_ok "[5, 6, 7, 8]"]
    by blast
qed

subsection \<open>A write over the ceiling\<close>

text \<open>
  The ceiling is enforced only when \<open>maxBytes\<close> is positive, and only after the check
  for a reader: with \<open>maxBytes = -1\<close> a write of one byte is accepted and stored, and
  with \<open>maxBytes = 1\<close> a write of two bytes after a \<open>Read\<close> fails with the
  write-after-read error.
\<close>

theorem C3_no_ceiling_or_after_read:
  "fst (Write io_ok [1] (NewBufferedWriteCloser (- 1) 10)) = (1, None) \<and>
   memoryBuffer (snd (Write io_ok [1] (NewBufferedWriteCloser (- 1) 10))) = [1] \<and>
   fst (Write io_ok [1, 2] (snd (Read 1 (NewBufferedWriteCloser 1 10))))
     = (0, Some ErrWriteAfterRead)"
  by (simp add: buffer_defs)

text \<open>
  C3, amended: for every buffer with a positive \<open>maxBytes\<close> on which no read has begun,
  a write whose length added to the bytes already written exceeds \<open>maxBytes\<close> fails with
  the maximum-size-exceeded error, reports 0 bytes written, and changes nothing of the
  buffer but the flag \<open>overflowed\<close>: memory, disk and both counters are as before.
\<close>

theorem C3_rejected_whole:
  assumes "reader b = None" and "0 < maxBytes b"
    and "maxBytes b < memBytesWritten b + diskBytesWritten b + int (length p)"
  shows "Write env p b = ((0, Some ErrMaximumSizeExceeded), b\<lparr>overflowed := True\<rparr>)"
  using assms by (simp add: Write_def Let_def)

theorem C3_rejected_whole_witness:
  "Write io_ok [1, 2, 3] (NewBufferedWriteCloser 2 10)
   = ((0, Some ErrMaximumSizeExceeded), (NewBufferedWriteCloser 2 10)\<lparr>overflowed := True\<rparr>)"
proof -
  have h1: "reader (NewBufferedWriteCloser 2 10) = None"
    by (simp add: new_fields)
  have h2: "0 < maxBytes (NewBufferedWriteCloser 2 10)"
    by (simp add: new_fields)
  have h3: "maxBytes (NewBufferedWriteCloser 2 10)
            < memBytesWritten (NewBufferedWriteCloser 2 10)
              + diskBytesWritten (NewBufferedWriteCloser 2 10) + int (length [1, 2, 3 :: byte])"
    by (simp add: new_fields)
  show ?thesis by (rule C3_rejected_whole [OF h1 h2 h3])
qed

subsection \<open>Write after read\<close>

text \<open>
  C6: on a buffer made by the constructor and used through any sequence of calls, a
  \<open>Write\<close> fails with the write-after-read error if and only if \<open>Read\<close> or \<open>Send\<close>
  has been called before; before the first of them, \<open>Write\<close> never returns that error.
\<close>

theorem C6_write_after_read:
  "(snd (fst (Write env p (run cs (NewBufferedWriteCloser mb mm)))) = Some ErrWriteAfterRead)
   = (\<exists>c \<in> set cs. is_read c)"
proof -
  have "(snd (fst (Write env p (run cs (NewBufferedWriteCloser mb mm)))) = Some ErrWriteAfterRead)
        = (reader (run cs (NewBufferedWriteCloser mb mm)) \<noteq> None)"
    by (rule Write_after_read_iff)
  also have "\<dots> = (reader (NewBufferedWriteCloser mb mm) \<noteq> None \<or> (\<exists>c \<in> set cs. is_read c))"
    by (rule run_reader)
  also have "\<dots> = (\<exists>c \<in> set cs. is_read c)"
    by (simp add: new_fields)
  finally show ?thesis .
qed

theorem C6_write_after_read_witness:
  "snd (fst (Write io_ok [2] (run [CallWrite io_ok [1], CallRead 1] (NewBufferedWriteCloser 0 10))))
     = Some ErrWriteAfterRead \<and>
   snd (fst (Write io_ok [2] (run [CallWrite io_ok [1], CallClose] (NewBufferedWriteCloser 0 10))))
     \<noteq> Some ErrWriteAfterRead"
  using C6_write_after_read [of io_ok "[2]" "[CallWrite io_ok [1], CallRead 1]" 0 10]
    C6_write_after_read [of io_ok "[2]" "[CallWrite io_ok [1], CallClose]" 0 10]
  by simp

subsection \<open>The invariant of the counters\<close>

text \<open>
  With a negative \<open>maxBytes\<close> there is no ceiling, and the total exceeds it after one
  byte; and when the write to a new temporary file fails before its first byte, the
  file exists and no byte has spilled.
\<close>

theorem C7_negative_ceiling_or_failed_write:
  "maxBytes (writes [(io_ok, [1])] (NewBufferedWriteCloser (- 1) 10)) \<noteq> 0 \<and>
   maxBytes (writes [(io_ok, [1])] (NewBufferedWriteCloser (- 1) 10))
     < memBytesWritten (writes [(io_ok, [1])] (NewBufferedWriteCloser (- 1) 10))
       + diskBytesWritten (writes [(io_ok, [1])] (NewBufferedWriteCloser (- 1) 10)) \<and>
   diskBuffer (writes [(\<lparr>createTemp_fails = False, diskWrite_fails = Some 0\<rparr>, [1])]
       (NewBufferedWriteCloser 0 0)) \<noteq> None \<and>
   diskBytesWritten (writes [(\<lparr>createTemp_fails = False, diskWrite_fails = Some 0\<rparr>, [1])]
       (NewBufferedWriteCloser 0 0)) = 0"
  by (simp add: buffer_defs)

text \<open>
  C7, amended: for every buffer constructed with \<open>maxMemBytes \<ge> 0\<close> and every
  sequence of \<open>Write\<close> calls, whatever the operating system does during them, after the
  sequence (so after each of its calls): the bytes in memory are at most
  \<open>maxMemBytes\<close>; the two counters are the numbers of bytes in memory and on disk; when
  \<open>maxBytes\<close> is positive, the total of the counters is at most \<open>maxBytes\<close>; if a byte
  has spilled, the file exists; and when no write to the file has failed, the file exists
  if and only if at least one byte has spilled.
\<close>

theorem C7_write_invariant:
  assumes "0 \<le> mm"
  shows "int (length (memoryBuffer (writes ws (NewBufferedWriteCloser mb mm)))) \<le> mm \<and>
         memBytesWritten (writes ws (NewBufferedWriteCloser mb mm))
           = int (length (memoryBuffer (writes ws (NewBufferedWriteCloser mb mm)))) \<and>
         diskBytesWritten (writes ws (NewBufferedWriteCloser mb mm))
           = int (length (disk_bytes (writes ws (NewBufferedWriteCloser mb mm)))) \<and>
         (0 < mb \<longrightarrow>
            memBytesWritten (writes ws (NewBufferedWriteCloser mb mm))
            + diskBytesWritten (writes ws (NewBufferedWriteCloser mb mm)) \<le> mb) \<and>
         (0 < diskBytesWritten (writes ws (NewBufferedWriteCloser mb mm)) \<longrightarrow>
            diskBuffer (writes ws (NewBufferedWriteCloser mb mm)) \<noteq> None) \<and>
         ((\<forall>w \<in> set ws. diskWrite_fails (fst w) = None) \<longrightarrow>
            (diskBuffer (writes ws (NewBufferedWriteCloser mb mm)) \<noteq> None)
            = (0 < diskBytesWritten (writes ws (NewBufferedWriteCloser mb mm))))"
proof -
  let ?B = "writes ws (NewBufferedWriteCloser mb mm)"
  have i: "write_inv ?B"
    by (rule writes_inv [OF write_inv_new [OF assms]])
  have c: "maxMemBytes ?B = mm" "maxBytes ?B = mb"
    using writes_config [of ws "NewBufferedWriteCloser mb mm"] by (simp_all add: new_fields)
  have s: "diskBuffer ?B \<noteq> None \<longrightarrow> 0 < diskBytesWritten ?B"
    if "\<forall>w \<in> set ws. diskWrite_fails (fst w) = None"
    by (rule writes_spilled [OF write_inv_new [OF assms] _ that]) (simp add: new_fields)
  have m: "memBytesWritten ?B = int (length (memoryBuffer ?B))" "memBytesWritten ?B \<le> mm"
    "0 < mb \<longrightarrow> memBytesWritten ?B + diskBytesWritten ?B \<le> mb"
    using i c by (auto simp add: write_inv_def)
  show ?thesis using m write_inv_disk [OF i] s by auto
qed

theorem C7_write_invariant_witness:
  "int (length (memoryBuffer (writes
      [(io_ok, [1, 2, 3, 4, 5, 6]), (\<lparr>createTemp_fails = False, diskWrite_fails = Some 1\<rparr>, [1, 2, 3, 4, 5, 6])]
      (NewBufferedWriteCloser 9 10)))) \<le> 10 \<and>
   memBytesWritten (writes
      [(io_ok, [1, 2, 3, 4, 5, 6]), (\<lparr>createTemp_fails = False, diskWrite_fails = Some 1\<rparr>, [1, 2, 3, 4, 5, 6])]
      (NewBufferedWriteCloser 9 10))
   + diskBytesWritten (writes
      [(io_ok, [1, 2, 3, 4, 5, 6]), (\<lparr>createTemp_fails = False, diskWrite_fails = Some 1\<rparr>, [1, 2, 3, 4, 5, 6])]
      (NewBufferedWriteCloser 9 10)) \<le> 9 \<and>
   (diskBuffer (writes [(io_ok, [1, 2, 3, 4, 5, 6]), (io_ok, [1, 2, 3, 4, 5, 6])]
      (NewBufferedWriteCloser 0 10)) \<noteq> None)
   = (0 < diskBytesWritten (writes [(io_ok, [1, 2, 3, 4, 5, 6]), (io_ok, [1, 2, 3, 4, 5, 6])]
      (NewBufferedWriteCloser 0 10)))"
proof -
  have h: "(0 :: int) \<le> 10" by simp
  have e: "\<forall>w \<in> set [(io_ok, [1, 2, 3, 4, 5, 6 :: byte]), (io_ok, [1, 2, 3, 4, 5, 6])].
             diskWrite_fails (fst w) = None"
    by (simp add: io_ok_def)
  have p: "(0 :: int) < 9" by simp
  show ?thesis
    using e p
      C7_write_invariant [OF h, of
        "[(io_ok, [1, 2, 3, 4, 5, 6]), (\<lparr>createTemp_fails = False, diskWrite_fails = Some 1\<rparr>, [1, 2, 3, 4, 5, 6])]" 9]
      C7_write_invariant [OF h, of "[(io_ok, [1, 2, 3, 4, 5, 6]), (io_ok, [1, 2, 3, 4, 5, 6])]" 0]
    by blast
qed


subsection \<open>Writes within the memory threshold\<close>

lemma holding_written:
  assumes "0 \<le> mm"
    and "0 < mb \<longrightarrow> total_size ws \<le> mb"
    and "(\<forall>w \<in> set ws. fst w = io_ok) \<or> total_size ws \<le> mm"
  shows "writes ws (NewBufferedWriteCloser mb mm) = holding mb mm (written ws) \<and>
         write_results ws (NewBufferedWriteCloser mb mm) = map (\<lambda>w. (length (snd w), None)) ws"
  using writes_holding [of mm mb "[]" ws] assms
  by (simp add: holding_empty)

text \<open>
  The ceiling applies below the memory threshold too: with \<open>maxBytes = 5\<close> and
  \<open>maxMemBytes = 10\<close>, a write of 6 bytes is rejected, and a full read returns nothing.
\<close>

theorem C5_rejected_write_is_not_read:
  "total_size [(io_ok, [1, 2, 3, 4, 5, 6])] \<le> 10 \<and>
   write_results [(io_ok, [1, 2, 3, 4, 5, 6])] (NewBufferedWriteCloser 5 10)
     = [(0, Some ErrMaximumSizeExceeded)] \<and>
   fst (Send (writes [(io_ok, [1, 2, 3, 4, 5, 6])] (NewBufferedWriteCloser 5 10))) = ([], None)"
  by (simp add: buffer_defs)

text \<open>
  C5, amended: for every sequence of \<open>Write\<close> calls whose total size is at most
  \<open>maxMemBytes\<close>, whatever the ceiling and the operating system do, no temporary file is
  made, after any of the calls. When moreover the total is at most \<open>maxBytes\<close>, if that
  is positive, every write is accepted in full, the memory buffer holds the
  concatenation of the written bytes in write order, and a full read, through \<open>Send\<close>
  or through a loop of \<open>Read\<close> calls of any positive size, returns exactly that
  concatenation (the loop ends with \<open>EOF\<close>).
\<close>

theorem C5_within_memory:
  assumes "total_size ws \<le> mm"
  shows "diskBuffer (writes (take n ws) (NewBufferedWriteCloser mb mm)) = None \<and>
         spillsCreated (writes (take n ws) (NewBufferedWriteCloser mb mm)) = 0 \<and>
         ((0 < mb \<longrightarrow> total_size ws \<le> mb) \<longrightarrow>
            write_results ws (NewBufferedWriteCloser mb mm)
              = map (\<lambda>w. (length (snd w), None)) ws \<and>
            memoryBuffer (writes ws (NewBufferedWriteCloser mb mm)) = written ws \<and>
            fst (Send (writes ws (NewBufferedWriteCloser mb mm))) = (written ws, None) \<and>
            (0 < k \<and> length (written ws) < fuel \<longrightarrow>
               map_option fst (read_loop fuel k (writes ws (NewBufferedWriteCloser mb mm)))
               = Some (written ws, Some EOF)))"
proof -
  let ?B0 = "NewBufferedWriteCloser mb mm"
  have mm: "0 \<le> mm" using assms total_size_nonneg [of ws] by linarith
  have t: "memBytesWritten ?B0 + total_size (take n ws) \<le> maxMemBytes ?B0"
    using assms total_size_take [of n ws] by (simp add: new_fields)
  have d: "diskBuffer ?B0 = None" by (simp add: new_fields)
  have nospill: "diskBuffer (writes (take n ws) ?B0) = None \<and>
                 spillsCreated (writes (take n ws) ?B0) = 0"
    using writes_no_spill [OF d t] by (simp add: new_fields)
  have full: "write_results ws ?B0 = map (\<lambda>w. (length (snd w), None)) ws \<and>
              memoryBuffer (writes ws ?B0) = written ws \<and>
              fst (Send (writes ws ?B0)) = (written ws, None) \<and>
              (0 < k \<and> length (written ws) < fuel \<longrightarrow>
                 map_option fst (read_loop fuel k (writes ws ?B0)) = Some (written ws, Some EOF))"
    if c: "0 < mb \<longrightarrow> total_size ws \<le> mb"
  proof -
    have e: "(\<forall>w \<in> set ws. fst w = io_ok) \<or> total_size ws \<le> mm" using assms by simp
    note h = holding_written [OF mm c e]
    have l: "length (written ws) \<le> nat mm"
      using assms by (simp add: total_size_def)
    have m: "memoryBuffer (holding mb mm (written ws)) = written ws"
      using l by (simp add: holding_def)
    show ?thesis
      using h m holding_full_read [OF mm, of mb "written ws" k fuel] by simp
  qed
  show ?thesis using nospill full by blast
qed

theorem C5_within_memory_witness:
  "diskBuffer (writes (take 1 [(io_ok, [1, 2, 3, 4, 5, 6]), (io_ok, [7, 8, 9])])
      (NewBufferedWriteCloser 0 10)) = None \<and>
   fst (Send (writes [(io_ok, [1, 2, 3, 4, 5, 6]), (io_ok, [7, 8, 9])]
      (NewBufferedWriteCloser 0 10))) = ([1, 2, 3, 4, 5, 6, 7, 8, 9], None) \<and>
   map_option fst (read_loop 10 4 (writes [(io_ok, [1, 2, 3, 4, 5, 6]), (io_ok, [7, 8, 9])]
      (NewBufferedWriteCloser 0 10))) = Some ([1, 2, 3, 4, 5, 6, 7, 8, 9], Some EOF)"
proof -
  have h: "total_size [(io_ok, [1, 2, 3, 4, 5, 6]), (io_ok, [7, 8, 9])] \<le> 10"
    by (simp add: total_size_def written_def)
  have c: "(0 :: int) < 0 \<longrightarrow> total_size [(io_ok, [1, 2, 3, 4, 5, 6]), (io_ok, [7, 8, 9])] \<le> 0"
    by simp
  have k: "(0 :: nat) < 4 \<and> length (written [(io_ok, [1, 2, 3, 4, 5, 6]), (io_ok, [7, 8, 9])]) < 10"
    by (simp add: written_def)
  have w: "written [(io_ok, [1, 2, 3, 4, 5, 6]), (io_ok, [7, 8, 9])] = [1, 2, 3, 4, 5, 6, 7, 8, 9]"
    by (simp add: written_def)
  show ?thesis
    using c k C5_within_memory [OF h, of 1 0 4 10] unfolding w by blast
qed

subsection \<open>Writes past the memory threshold\<close>

text \<open>
  A negative \<open>maxMemBytes\<close> makes the slice expression of the first write panic, after
  the temporary file is made: no byte is stored and a full read returns nothing. And
  when \<open>os.CreateTemp\<close> fails, the write that crosses the threshold fails with the
  error of the operating system and no file is made.
\<close>

theorem C2_negative_threshold_or_failed_io:
  "write_results [(io_ok, [1])] (NewBufferedWriteCloser 0 (- 1)) = [(0, Some PanicSliceBounds)] \<and>
   fst (Send (writes [(io_ok, [1])] (NewBufferedWriteCloser 0 (- 1)))) = ([], None) \<and>
   write_results [(\<lparr>createTemp_fails = True, diskWrite_fails = None\<rparr>, [1])]
     (NewBufferedWriteCloser 0 0) = [(0, Some ErrIO)] \<and>
   spillsCreated (writes [(\<lparr>createTemp_fails = True, diskWrite_fails = None\<rparr>, [1])]
     (NewBufferedWriteCloser 0 0)) = 0"
  by (simp add: buffer_defs)

text \<open>
  C2, amended: for a buffer constructed with \<open>maxMemBytes \<ge> 0\<close> and every sequence of
  \<open>Write\<close> calls during which the operating system fails neither to make the temporary
  file nor to write to it, whose total size exceeds \<open>maxMemBytes\<close> and, when
  \<open>maxBytes\<close> is positive, is at most \<open>maxBytes\<close>: every write is accepted in full;
  after any number of the calls one temporary file has been made if the bytes written so
  far exceed \<open>maxMemBytes\<close> and none otherwise, so exactly one is made, by the write
  that first crosses the threshold; in the end the memory buffer holds the first
  \<open>maxMemBytes\<close> bytes and the file the rest; a full read, through \<open>Send\<close> or through a
  loop of \<open>Read\<close> calls of any positive size, returns exactly the concatenation of the
  written bytes in write order; and the buffer is the same for every other sequence of
  writes of the same bytes.
\<close>

theorem C2_spill_once:
  assumes "0 \<le> mm" and "\<forall>w \<in> set ws. fst w = io_ok"
    and "mm < total_size ws" and "0 < mb \<longrightarrow> total_size ws \<le> mb"
  shows "write_results ws (NewBufferedWriteCloser mb mm)
           = map (\<lambda>w. (length (snd w), None)) ws \<and>
         spillsCreated (writes (take n ws) (NewBufferedWriteCloser mb mm))
           = (if mm < total_size (take n ws) then 1 else 0) \<and>
         spillsCreated (writes ws (NewBufferedWriteCloser mb mm)) = 1 \<and>
         memoryBuffer (writes ws (NewBufferedWriteCloser mb mm)) = take (nat mm) (written ws) \<and>
         diskBuffer (writes ws (NewBufferedWriteCloser mb mm)) \<noteq> None \<and>
         disk_bytes (writes ws (NewBufferedWriteCloser mb mm)) = drop (nat mm) (written ws) \<and>
         fst (Send (writes ws (NewBufferedWriteCloser mb mm))) = (written ws, None) \<and>
         (0 < k \<and> length (written ws) < fuel \<longrightarrow>
            map_option fst (read_loop fuel k (writes ws (NewBufferedWriteCloser mb mm)))
            = Some (written ws, Some EOF)) \<and>
         ((\<forall>w \<in> set ws'. fst w = io_ok) \<and> written ws' = written ws \<longrightarrow>
            writes ws' (NewBufferedWriteCloser mb mm) = writes ws (NewBufferedWriteCloser mb mm))"
proof -
  let ?B0 = "NewBufferedWriteCloser mb mm"
  have e: "(\<forall>w \<in> set ws. fst w = io_ok) \<or> total_size ws \<le> mm" using assms(2) by blast
  note h = holding_written [OF assms(1) assms(4) e]
  have pc: "0 < mb \<longrightarrow> total_size (take n ws) \<le> mb"
    using assms(4) total_size_take [of n ws] by linarith
  have pe: "(\<forall>w \<in> set (take n ws). fst w = io_ok) \<or> total_size (take n ws) \<le> mm"
    using assms(2) by (meson in_set_takeD)
  note hp = holding_written [OF assms(1) pc pe]
  have sp: "spillsCreated (writes (take n ws) ?B0) = (if mm < total_size (take n ws) then 1 else 0)"
    using hp by (simp add: holding_def total_size_def)
  have fin: "spillsCreated (writes ws ?B0) = 1"
    "memoryBuffer (writes ws ?B0) = take (nat mm) (written ws)"
    "diskBuffer (writes ws ?B0) \<noteq> None"
    "disk_bytes (writes ws ?B0) = drop (nat mm) (written ws)"
    using h assms(3) by (simp_all add: holding_def total_size_def disk_bytes_def)
  have same: "writes ws' ?B0 = writes ws ?B0"
    if "\<forall>w \<in> set ws'. fst w = io_ok" "written ws' = written ws"
  proof -
    have c': "0 < mb \<longrightarrow> total_size ws' \<le> mb"
      using assms(4) that(2) by (simp add: total_size_def)
    have e': "(\<forall>w \<in> set ws'. fst w = io_ok) \<or> total_size ws' \<le> mm" using that(1) by blast
    show ?thesis using holding_written [OF assms(1) c' e'] h that(2) by simp
  qed
  show ?thesis
    using h sp fin same holding_full_read [OF assms(1), of mb "written ws" k fuel] by simp
qed

theorem C2_spill_once_witness:
  "spillsCreated (writes (take 1 [(io_ok, [1, 2, 3, 4, 5, 6]), (io_ok, [7, 8, 9, 10, 11, 12])])
      (NewBufferedWriteCloser 0 10)) = 0 \<and>
   spillsCreated (writes [(io_ok, [1, 2, 3, 4, 5, 6]), (io_ok, [7, 8, 9, 10, 11, 12])]
      (NewBufferedWriteCloser 0 10)) = 1 \<and>
   memoryBuffer (writes [(io_ok, [1, 2, 3, 4, 5, 6]), (io_ok, [7, 8, 9, 10, 11, 12])]
      (NewBufferedWriteCloser 0 10)) = [1, 2, 3, 4, 5, 6, 7, 8, 9, 10] \<and>
   disk_bytes (writes [(io_ok, [1, 2, 3, 4, 5, 6]), (io_ok, [7, 8, 9, 10, 11, 12])]
      (NewBufferedWriteCloser 0 10)) = [11, 12] \<and>
   fst (Send (writes [(io_ok, [1, 2, 3, 4, 5, 6]), (io_ok, [7, 8, 9, 10, 11, 12])]
      (NewBufferedWriteCloser 0 10))) = ([1, 2, 3, 4, 5, 6, 7, 8, 9, 10, 11, 12], None) \<and>
   map_option fst (read_loop 13 5 (writes [(io_ok, [1, 2, 3, 4, 5, 6]), (io_ok, [7, 8, 9, 10, 11, 12])]
      (NewBufferedWriteCloser 0 10))) = Some ([1, 2, 3, 4, 5, 6, 7, 8, 9, 10, 11, 12], Some EOF)"
proof -
  let ?ws = "[(io_ok, [1, 2, 3, 4, 5, 6 :: byte]), (io_ok, [7, 8, 9, 10, 11, 12])]"
  have h1: "(0 :: int) \<le> 10" by simp
  have h2: "\<forall>w \<in> set ?ws. fst w = io_ok" by simp
  have h3: "10 < total_size ?ws" by (simp add: total_size_def written_def)
  have h4: "(0 :: int) < 0 \<longrightarrow> total_size ?ws \<le> 0" by simp
  have w: "written ?ws = [1, 2, 3, 4, 5, 6, 7, 8, 9, 10, 11, 12]"
    by (simp add: written_def)
  have t: "\<not> 10 < total_size (take 1 ?ws)" by (simp add: total_size_def written_def)
  have k: "(0 :: nat) < 5 \<and> length (written ?ws) < 13" by (simp add: written_def)
  show ?thesis
    using t k C2_spill_once [OF h1 h2 h3 h4, of 1 5 13] unfolding w by simp
qed

end
